theory Spec2Isabelle
  imports Complex_Main "HOL-Library.Sublist"
begin


section \<open>JavaScript values used by the listing handler\<close>

subsection \<open>Numbers\<close>

text \<open>
  A JavaScript number is an IEEE 754 binary64 value. The model keeps the three special
  values apart and stores a finite value as the rational it denotes. The two zeros are
  one value here: the program never divides by zero and never prints a zero's sign.
\<close>

datatype jsnum = NaN | PInf | NInf | Fin rat

text \<open>The number of binary digits of a positive integer.\<close>

function bit_length :: "int \<Rightarrow> int" where
  "bit_length n = (if n \<le> 0 then 0 else 1 + bit_length (n div 2))"
  by pat_completeness auto
termination
  by (relation "measure nat") auto

declare bit_length.simps [simp del]

text \<open>The exponent \<open>e\<close> with \<open>2^e \<le> x < 2^(e+1)\<close>, for a positive rational.\<close>

definition floor_log2 :: "rat \<Rightarrow> int" where
  "floor_log2 x =
     (let (p, q) = quotient_of x;
          d = bit_length p - bit_length q
      in if 2 powi d \<le> x then d else d - 1)"

definition round_half_even :: "rat \<Rightarrow> int" where
  "round_half_even q =
     (let n = \<lfloor>q\<rfloor>; f = q - of_int n
      in if f < 1 / 2 then n
         else if 1 / 2 < f then n + 1
         else if even n then n else n + 1)"

text \<open>
  Rounding of an exact value to the nearest binary64 number, ties to even: 53 significant
  bits, exponents from -1022 (subnormal numbers below) to 1023, infinity beyond.
\<close>

definition to_double :: "rat \<Rightarrow> jsnum" where
  "to_double x =
     (if x = 0 then Fin 0
      else
        let u = 2 powi (max (floor_log2 \<bar>x\<bar>) (- 1022) - 52);
            y = of_int (round_half_even (x / u)) * u
        in if 2 ^ 1024 \<le> \<bar>y\<bar> then (if 0 < x then PInf else NInf) else Fin y)"

text \<open>\<open>a + b\<close>, \<open>a / b\<close>, \<open>a <= b\<close>, \<open>a >= b\<close> and \<open>a === b\<close> on numbers.\<close>

fun js_add :: "jsnum \<Rightarrow> jsnum \<Rightarrow> jsnum" where
  "js_add NaN _ = NaN"
| "js_add _ NaN = NaN"
| "js_add PInf NInf = NaN"
| "js_add NInf PInf = NaN"
| "js_add PInf _ = PInf"
| "js_add _ PInf = PInf"
| "js_add NInf _ = NInf"
| "js_add _ NInf = NInf"
| "js_add (Fin a) (Fin b) = to_double (a + b)"

fun js_div :: "jsnum \<Rightarrow> jsnum \<Rightarrow> jsnum" where
  "js_div NaN _ = NaN"
| "js_div _ NaN = NaN"
| "js_div (Fin a) (Fin b) =
     (if b = 0 then (if a = 0 then NaN else if 0 < a then PInf else NInf)
      else to_double (a / b))"
| "js_div (Fin a) _ = Fin 0"
| "js_div PInf (Fin b) = (if 0 \<le> b then PInf else NInf)"
| "js_div NInf (Fin b) = (if 0 \<le> b then NInf else PInf)"
| "js_div _ _ = NaN"

fun js_le :: "jsnum \<Rightarrow> jsnum \<Rightarrow> bool" where
  "js_le NaN _ = False"
| "js_le _ NaN = False"
| "js_le NInf _ = True"
| "js_le _ PInf = True"
| "js_le (Fin a) (Fin b) = (a \<le> b)"
| "js_le _ _ = False"

definition js_ge :: "jsnum \<Rightarrow> jsnum \<Rightarrow> bool" where
  "js_ge a b = js_le b a"

definition js_strict_eq :: "jsnum \<Rightarrow> jsnum \<Rightarrow> bool" where
  "js_strict_eq a b = (a \<noteq> NaN \<and> a = b)"

subsection \<open>Strings\<close>

text \<open>
  A string is a list of code units; a \<^typ>\<open>char\<close> stands for a code unit below 256.
  \<open>ToString\<close> of a field that may be missing gives the text \<open>undefined\<close> for a missing one.
\<close>

definition ToString :: "string option \<Rightarrow> string" where
  "ToString v = (case v of None \<Rightarrow> ''undefined'' | Some s \<Rightarrow> s)"

text \<open>White space and line terminators: tab, LF, VT, FF, CR, space, no-break space.\<close>

definition is_whitespace :: "char \<Rightarrow> bool" where
  "is_whitespace c = (of_char c \<in> set [9, 10, 11, 12, 13, 32, 160 :: nat])"

definition is_digit :: "char \<Rightarrow> bool" where
  "is_digit c = (c \<in> set ''0123456789'')"

definition digit_val :: "char \<Rightarrow> int" where
  "digit_val c = of_char c - 48"

definition is_hex_digit :: "char \<Rightarrow> bool" where
  "is_hex_digit c = (c \<in> set ''0123456789abcdefABCDEF'')"

definition hex_val :: "char \<Rightarrow> int" where
  "hex_val c =
     (if is_digit c then of_char c - 48
      else if c \<in> set ''abcdef'' then of_char c - 87
      else of_char c - 55)"

definition digits_value :: "string \<Rightarrow> int" where
  "digits_value ds = foldl (\<lambda>n c. 10 * n + digit_val c) 0 ds"

definition hex_value :: "string \<Rightarrow> int" where
  "hex_value ds = foldl (\<lambda>n c. 16 * n + hex_val c) 0 ds"

text \<open>\<open>String.prototype.trim\<close>.\<close>

definition trim :: "string \<Rightarrow> string" where
  "trim s = rev (dropWhile is_whitespace (rev (dropWhile is_whitespace s)))"

text \<open>\<open>String.prototype.includes\<close>: the search string occurs at some position.\<close>

fun includes_str :: "string \<Rightarrow> string \<Rightarrow> bool" where
  "includes_str [] t = (t = [])"
| "includes_str (c # s) t = (prefix t (c # s) \<or> includes_str s t)"

subsection \<open>parseFloat and parseInt\<close>

text \<open>
  An optional sign in front of a text: the flag says whether it was a minus.
\<close>

definition split_sign :: "string \<Rightarrow> bool \<times> string" where
  "split_sign t =
     (case t of
        [] \<Rightarrow> (False, [])
      | c # r \<Rightarrow>
          if c = CHR ''-'' then (True, r)
          else if c = CHR ''+'' then (False, r)
          else (False, t))"

text \<open>
  The exponent part that follows a mantissa: \<open>e\<close> or \<open>E\<close>, an optional sign and at least one
  digit. Anything else is not part of the number and the exponent is 0.
\<close>

definition exponent_part :: "string \<Rightarrow> int" where
  "exponent_part r =
     (case r of
        [] \<Rightarrow> 0
      | c # r' \<Rightarrow>
          if c = CHR ''e'' \<or> c = CHR ''E'' then
            (let (neg, ds) = split_sign r'; es = takeWhile is_digit ds
             in if es = [] then 0
                else if neg then - digits_value es else digits_value es)
          else 0)"

text \<open>
  The longest prefix that is an unsigned decimal literal (digits, an optional fraction,
  an optional exponent; or a fraction that starts with the point), and its exact value.
  \<open>parseFloat\<close> and \<open>parseInt\<close> give that value rounded to the nearest number. (For a
  literal of more than twenty significant digits the standard also allows the digits after
  the twentieth to be read as zeros.)
\<close>

definition decimal_literal :: "string \<Rightarrow> rat option" where
  "decimal_literal u =
     (let ip = takeWhile is_digit u;
          r1 = dropWhile is_digit u;
          has_point = (r1 \<noteq> [] \<and> hd r1 = CHR ''.'');
          fp = (if has_point then takeWhile is_digit (tl r1) else []);
          r2 = (if has_point then dropWhile is_digit (tl r1) else r1)
      in if ip = [] \<and> fp = [] then None
         else Some ((of_int (digits_value ip) + of_int (digits_value fp) / 10 ^ length fp)
                    * 10 powi exponent_part r2))"

definition parseFloat :: "string \<Rightarrow> jsnum" where
  "parseFloat s =
     (let (neg, u) = split_sign (dropWhile is_whitespace s)
      in if prefix ''Infinity'' u then (if neg then NInf else PInf)
         else case decimal_literal u of
                None \<Rightarrow> NaN
              | Some q \<Rightarrow> to_double (if neg then - q else q))"

text \<open>\<open>parseInt\<close> with no radix: base 16 after \<open>0x\<close> or \<open>0X\<close>, base 10 otherwise.\<close>

definition parseInt :: "string \<Rightarrow> jsnum" where
  "parseInt s =
     (let (neg, u) = split_sign (dropWhile is_whitespace s);
          hex = (prefix ''0x'' u \<or> prefix ''0X'' u);
          z = (if hex then takeWhile is_hex_digit (drop 2 u) else takeWhile is_digit u);
          n = (if hex then hex_value z else digits_value z)
      in if z = [] then NaN
         else to_double (if neg then - of_int n else of_int n))"

section \<open>Objects\<close>

text \<open>
  An object is the list of its own properties in the order in which JavaScript enumerates
  them: the keys that are array indices first, in ascending numeric order, then the other
  keys in the order of their creation. The function \<open>ix\<close> tells which keys are array
  indices.
\<close>

fun obj_update :: "('k \<times> 'v) list \<Rightarrow> 'k \<Rightarrow> 'v \<Rightarrow> ('k \<times> 'v) list" where
  "obj_update [] k v = []"
| "obj_update ((k', v') # kvs) k v =
     (if k' = k then (k, v) # kvs else (k', v') # obj_update kvs k v)"

definition index_below :: "('k \<Rightarrow> int option) \<Rightarrow> int \<Rightarrow> 'k \<times> 'v \<Rightarrow> bool" where
  "index_below ix i kv = (case ix (fst kv) of None \<Rightarrow> False | Some j \<Rightarrow> j < i)"

definition obj_create :: "('k \<Rightarrow> int option) \<Rightarrow> ('k \<times> 'v) list \<Rightarrow> 'k \<Rightarrow> 'v \<Rightarrow> ('k \<times> 'v) list" where
  "obj_create ix kvs k v =
     (case ix k of
        None \<Rightarrow> kvs @ [(k, v)]
      | Some i \<Rightarrow> takeWhile (index_below ix i) kvs @ (k, v) # dropWhile (index_below ix i) kvs)"

text \<open>The assignment \<open>obj[k] = v\<close>.\<close>

definition obj_put :: "('k \<Rightarrow> int option) \<Rightarrow> ('k \<times> 'v) list \<Rightarrow> 'k \<Rightarrow> 'v \<Rightarrow> ('k \<times> 'v) list" where
  "obj_put ix kvs k v =
     (if map_of kvs k = None then obj_create ix kvs k v else obj_update kvs k v)"

text \<open>
  A string key is an array index when it is the decimal numeral, with no leading zero,
  of a number up to \<open>2^32 - 2\<close>.
\<close>

definition array_index :: "string \<Rightarrow> int option" where
  "array_index k =
     (if k \<noteq> [] \<and> list_all is_digit k \<and> (hd k \<noteq> CHR ''0'' \<or> k = ''0'')
         \<and> digits_value k \<le> 4294967294
      then Some (digits_value k) else None)"

text \<open>
  A number used as a key names the property \<open>ToString\<close> of the number; different numbers
  give different names, so the model keeps the number as the key. The name is an array
  index when the number is an integer from 0 to \<open>2^32 - 2\<close>.
\<close>

definition number_index :: "jsnum \<Rightarrow> int option" where
  "number_index n =
     (case n of
        Fin q \<Rightarrow> if of_int \<lfloor>q\<rfloor> = q \<and> 0 \<le> q \<and> q \<le> 4294967294 then Some \<lfloor>q\<rfloor> else None
      | _ \<Rightarrow> None)"

section \<open>The listing handler\<close>

text \<open>
  A listing is a row of the CSV file: an object whose values are strings. Reading a field
  that the row does not have gives \<open>undefined\<close>, here \<^const>\<open>None\<close>.
\<close>

type_synonym listing = "(string \<times> string) list"

definition field :: "listing \<Rightarrow> string \<Rightarrow> string option" where
  "field listing name = map_of listing name"

datatype error = TypeError

text \<open>Sequencing of steps that may throw.\<close>

definition then_do :: "error + 'a \<Rightarrow> ('a \<Rightarrow> error + 'b) \<Rightarrow> error + 'b" where
  "then_do r f = (case r of Inl e \<Rightarrow> Inl e | Inr x \<Rightarrow> f x)"

text \<open>A method call on a value that may be \<open>undefined\<close>: that throws a \<open>TypeError\<close>.\<close>

definition call_on :: "string option \<Rightarrow> (string \<Rightarrow> 'a) \<Rightarrow> error + 'a" where
  "call_on v f = (case v of None \<Rightarrow> Inl TypeError | Some s \<Rightarrow> Inr (f s))"

text \<open>\<open>Array.prototype.filter\<close> with a callback that may throw.\<close>

fun filter_array :: "('a \<Rightarrow> error + bool) \<Rightarrow> 'a list \<Rightarrow> error + 'a list" where
  "filter_array p [] = Inr []"
| "filter_array p (x # xs) =
     then_do (p x) (\<lambda>keep.
     then_do (filter_array p xs) (\<lambda>ys. Inr (if keep then x # ys else ys)))"

text \<open>\<open>priceStr.replace(/[^0-9.]/g, '')\<close> and \<open>parseFloat\<close> of the rest.\<close>

definition extractPrice :: "string \<Rightarrow> jsnum" where
  "extractPrice priceStr = parseFloat (filter (\<lambda>c. is_digit c \<or> c = CHR ''.'') priceStr)"

record handler =
  data :: "listing list"

definition AirBnBDataHandler :: "listing list \<Rightarrow> handler" where
  "AirBnBDataHandler d = \<lparr>data = d\<rparr>"

record criteria =
  price :: "jsnum option"
  room_type :: "string option"
  bedrooms :: "jsnum option"
  review_scores_rating :: "jsnum option"

definition filter_criteria :: "handler \<Rightarrow> criteria \<Rightarrow> error + handler" where
  "filter_criteria this criteria =
     then_do
       (case price criteria of
          None \<Rightarrow> Inr (data this)
        | Some p \<Rightarrow>
            filter_array
              (\<lambda>listing. call_on (field listing ''price'') (\<lambda>s. js_le (extractPrice s) p))
              (data this))
       (\<lambda>d1.
          let d2 = (case room_type criteria of
                      None \<Rightarrow> d1
                    | Some rt \<Rightarrow>
                        if rt = [] then d1
                        else filter (\<lambda>listing. field listing ''room_type'' = Some rt) d1);
              d3 = (case bedrooms criteria of
                      None \<Rightarrow> d2
                    | Some b \<Rightarrow>
                        filter
                          (\<lambda>listing. js_strict_eq (parseInt (ToString (field listing ''bedrooms''))) b)
                          d2);
              d4 = (case review_scores_rating criteria of
                      None \<Rightarrow> d3
                    | Some m \<Rightarrow>
                        filter
                          (\<lambda>listing.
                             js_ge (parseFloat (ToString (field listing ''review_scores_rating''))) m)
                          d3)
          in Inr (AirBnBDataHandler d4))"

definition filterByHostLocation :: "handler \<Rightarrow> string \<Rightarrow> error + handler" where
  "filterByHostLocation this hostLocation =
     then_do
       (filter_array
          (\<lambda>listing. call_on (field listing ''host_location'') (\<lambda>s. includes_str s hostLocation))
          (data this))
       (\<lambda>filtered. Inr (AirBnBDataHandler filtered))"

subsection \<open>computeStats\<close>

record bucket =
  bucket_sum :: jsnum
  bucket_count :: nat

record stats =
  count :: nat
  avgPricePerBedroom :: "(jsnum \<times> jsnum) list"

text \<open>The test \<open>!cur.price || cur.price.trim() === ''\<close>.\<close>

definition empty_price :: "listing \<Rightarrow> bool" where
  "empty_price cur =
     (case field cur ''price'' of None \<Rightarrow> True | Some s \<Rightarrow> s = [] \<or> trim s = [])"

text \<open>One step of the \<open>reduce\<close> that collects a sum and a count for each bedroom count.\<close>

definition stats_step :: "listing \<Rightarrow> (jsnum \<times> bucket) list \<Rightarrow> (jsnum \<times> bucket) list" where
  "stats_step cur acc =
     (if empty_price cur then acc
      else
        let priceValue = extractPrice (ToString (field cur ''price''));
            bedCount = parseInt (ToString (field cur ''bedrooms''));
            acc1 = (if map_of acc bedCount = None
                    then obj_put number_index acc bedCount \<lparr>bucket_sum = Fin 0, bucket_count = 0\<rparr>
                    else acc)
        in case map_of acc1 bedCount of
             None \<Rightarrow> acc1
           | Some b \<Rightarrow>
               obj_put number_index acc1 bedCount
                 \<lparr>bucket_sum = js_add (bucket_sum b) priceValue,
                  bucket_count = bucket_count b + 1\<rparr>)"

definition average :: "bucket \<Rightarrow> jsnum" where
  "average b =
     (if 0 < bucket_count b then js_div (bucket_sum b) (Fin (of_nat (bucket_count b)))
      else Fin 0)"

definition computeStats :: "handler \<Rightarrow> stats" where
  "computeStats this =
     \<lparr>count = length (data this),
      avgPricePerBedroom =
        map (\<lambda>(key, b). (key, average b)) (fold stats_step (data this) [])\<rparr>"

subsection \<open>computeListingsPerHost\<close>

text \<open>
  The accumulator is a plain object, so \<open>acc[hostId]\<close> also finds what every object
  inherits. For a host_id that is one of these names the value read is a function, the
  sum is a text, the comparator of the sort gives \<open>NaN\<close>, and the order of the result is
  left to the implementation. The model stops at such a table.
\<close>

definition object_prototype_names :: "string list" where
  "object_prototype_names =
     [''constructor'', ''__defineGetter__'', ''__defineSetter__'', ''hasOwnProperty'',
      ''__lookupGetter__'', ''__lookupSetter__'', ''isPrototypeOf'', ''propertyIsEnumerable'',
      ''toString'', ''valueOf'', ''__proto__'', ''toLocaleString'']"

datatype unmodelled = Inherited_property

definition host_key :: "listing \<Rightarrow> string" where
  "host_key cur = ToString (field cur ''host_id'')"

definition host_step :: "listing \<Rightarrow> (string \<times> nat) list \<Rightarrow> (string \<times> nat) list" where
  "host_step cur acc =
     (let hostId = host_key cur
      in obj_put array_index acc hostId ((case map_of acc hostId of None \<Rightarrow> 0 | Some n \<Rightarrow> n) + 1))"

text \<open>
  \<open>sort((a, b) => b[1] - a[1])\<close>: a stable sort, larger counts first.
\<close>

definition computeListingsPerHost :: "handler \<Rightarrow> unmodelled + (string \<times> nat) list" where
  "computeListingsPerHost this =
     (if \<exists>cur \<in> set (data this). host_key cur \<in> set object_prototype_names
      then Inl Inherited_property
      else
        let hostListings = fold host_step (data this) [];
            ranking = sort_key (\<lambda>entry. - int (snd entry)) hostListings
        in Inr ranking)"

subsection \<open>The handler as an object in a store\<close>

text \<open>
  To speak of a new instance and of an instance left unchanged, arrays and handler objects
  live in a store and are named by references. An array is its list of listings; a
  handler object is the reference to the array in its \<open>data\<close> property. Creating an array or
  an object extends the store and gives the new reference.
\<close>

type_synonym ref = nat

record store =
  arrays :: "listing list list"
  objects :: "ref list"

definition new_array :: "listing list \<Rightarrow> store \<Rightarrow> ref \<times> store" where
  "new_array xs s = (length (arrays s), s\<lparr>arrays := arrays s @ [xs]\<rparr>)"

text \<open>\<open>AirBnBDataHandler(data)\<close>: a new object that holds the reference it was given.\<close>

definition new_handler :: "ref \<Rightarrow> store \<Rightarrow> ref \<times> store" where
  "new_handler a s = (length (objects s), s\<lparr>objects := objects s @ [a]\<rparr>)"

text \<open>
  \<open>array.filter(callback)\<close> creates the array of the result first and then visits the elements
  in order, appending to the new array each one that the callback selects. If the callback
  throws, the visit stops there: the throw is the outcome, and the store keeps the unfinished
  array, which nothing refers to.
\<close>

definition push :: "ref \<Rightarrow> listing \<Rightarrow> store \<Rightarrow> store" where
  "push a x s = s\<lparr>arrays := (arrays s)[a := arrays s ! a @ [x]]\<rparr>"

fun filter_into :: "(listing \<Rightarrow> error + bool) \<Rightarrow> listing list \<Rightarrow> ref \<Rightarrow> store \<Rightarrow> (error + ref) \<times> store" where
  "filter_into callback [] a s = (Inr a, s)"
| "filter_into callback (x # xs) a s =
     (case callback x of
        Inl e \<Rightarrow> (Inl e, s)
      | Inr selected \<Rightarrow> filter_into callback xs a (if selected then push a x s else s))"

definition array_filter :: "('a \<Rightarrow> listing \<Rightarrow> error + bool) \<Rightarrow> 'a option \<Rightarrow> ref \<Rightarrow> store \<Rightarrow> (error + ref) \<times> store" where
  "array_filter test criterion filteredData s =
     (case criterion of
        None \<Rightarrow> (Inr filteredData, s)
      | Some c \<Rightarrow>
          (case new_array [] s of (a, s1) \<Rightarrow> filter_into (test c) (arrays s ! filteredData) a s1))"

text \<open>
  A throw ends the method: what follows a call runs on the reference that the call returned,
  in the store that it left.
\<close>

definition and_then :: "(error + ref) \<times> store \<Rightarrow> (ref \<Rightarrow> store \<Rightarrow> (error + ref) \<times> store) \<Rightarrow> (error + ref) \<times> store" where
  "and_then r f = (case r of (Inl e, s) \<Rightarrow> (Inl e, s) | (Inr a, s) \<Rightarrow> f a s)"

text \<open>
  The method \<open>filter\<close> of the handler object \<open>this\<close>: \<open>filteredData\<close> starts as the reference
  \<open>this.data\<close> and is replaced by the result of each pass whose criterion is given; the
  object returned holds the last reference.
\<close>

definition filter_method :: "store \<Rightarrow> ref \<Rightarrow> criteria \<Rightarrow> (error + ref) \<times> store" where
  "filter_method s this criteria =
     and_then
       (array_filter
          (\<lambda>p listing. call_on (field listing ''price'') (\<lambda>v. js_le (extractPrice v) p))
          (price criteria) (objects s ! this) s)
       (\<lambda>d1 s1.
     and_then
       (array_filter
          (\<lambda>rt listing. Inr (field listing ''room_type'' = Some rt))
          (case room_type criteria of None \<Rightarrow> None | Some rt \<Rightarrow> if rt = [] then None else Some rt)
          d1 s1)
       (\<lambda>d2 s2.
     and_then
       (array_filter
          (\<lambda>b listing. Inr (js_strict_eq (parseInt (ToString (field listing ''bedrooms''))) b))
          (bedrooms criteria) d2 s2)
       (\<lambda>d3 s3.
     and_then
       (array_filter
          (\<lambda>m listing.
             Inr (js_ge (parseFloat (ToString (field listing ''review_scores_rating''))) m))
          (review_scores_rating criteria) d3 s3)
       (\<lambda>d4 s4. case new_handler d4 s4 of (h, s5) \<Rightarrow> (Inr h, s5)))))"

section \<open>Export and the shell\<close>

subsection \<open>Values and JSON documents\<close>






subsection \<open>exportResults\<close>







subsection \<open>The results that the shell collects\<close>







subsection \<open>Option 1 of the menu\<close>



section \<open>Predicates used to state the properties\<close>

text \<open>
  What each criterion asks of a listing, in the words of the specification; the theorems
  below compare \<^const>\<open>filter_criteria\<close> with them.
\<close>

definition meets_price :: "jsnum option \<Rightarrow> listing \<Rightarrow> bool" where
  "meets_price c listing =
     (case c of
        None \<Rightarrow> True
      | Some p \<Rightarrow> (case field listing ''price'' of None \<Rightarrow> False | Some s \<Rightarrow> js_le (extractPrice s) p))"


definition meets_room_type :: "string option \<Rightarrow> listing \<Rightarrow> bool" where
  "meets_room_type c listing =
     (case c of None \<Rightarrow> True | Some rt \<Rightarrow> rt = [] \<or> field listing ''room_type'' = Some rt)"


definition meets_bedrooms :: "jsnum option \<Rightarrow> listing \<Rightarrow> bool" where
  "meets_bedrooms c listing =
     (case c of
        None \<Rightarrow> True
      | Some b \<Rightarrow> js_strict_eq (parseInt (ToString (field listing ''bedrooms''))) b)"


definition meets_rating :: "jsnum option \<Rightarrow> listing \<Rightarrow> bool" where
  "meets_rating c listing =
     (case c of
        None \<Rightarrow> True
      | Some m \<Rightarrow> js_ge (parseFloat (ToString (field listing ''review_scores_rating''))) m)"


definition meets :: "criteria \<Rightarrow> listing \<Rightarrow> bool" where
  "meets c listing =
     (meets_price (price c) listing \<and> meets_room_type (room_type c) listing
      \<and> meets_bedrooms (bedrooms c) listing \<and> meets_rating (review_scores_rating c) listing)"


definition price_throws :: "criteria \<Rightarrow> listing list \<Rightarrow> bool" where
  "price_throws c d = (price c \<noteq> None \<and> (\<exists>listing \<in> set d. field listing ''price'' = None))"



definition is_finite :: "jsnum \<Rightarrow> bool" where
  "is_finite n = (case n of Fin q \<Rightarrow> True | _ \<Rightarrow> False)"

text \<open>
  For computeStats: a listing has a blank price when the field is missing, empty or white
  space only; the key and the price that a listing brings to the accumulation; the listings
  that reach the bucket of a key; and a bucket after a list of prices has been added.
\<close>

definition blank_price :: "listing \<Rightarrow> bool" where
  "blank_price listing =
     (case field listing ''price'' of None \<Rightarrow> True | Some s \<Rightarrow> \<forall>c \<in> set s. is_whitespace c)"

definition bedroom_key :: "listing \<Rightarrow> jsnum" where
  "bedroom_key listing = parseInt (ToString (field listing ''bedrooms''))"

definition price_value :: "listing \<Rightarrow> jsnum" where
  "price_value listing = extractPrice (ToString (field listing ''price''))"

definition bucket_members :: "jsnum \<Rightarrow> listing list \<Rightarrow> listing list" where
  "bucket_members k d = filter (\<lambda>listing. \<not> blank_price listing \<and> bedroom_key listing = k) d"

definition bucket_after :: "bucket option \<Rightarrow> jsnum list \<Rightarrow> bucket option" where
  "bucket_after start prices =
     (if prices = [] then start
      else Some \<lparr>bucket_sum =
                   foldl js_add (case start of None \<Rightarrow> Fin 0 | Some b \<Rightarrow> bucket_sum b) prices,
                 bucket_count = (case start of None \<Rightarrow> 0 | Some b \<Rightarrow> bucket_count b) + length prices\<rparr>)"

text \<open>
  For computeListingsPerHost: digit strings with no leading zero; the numeric value of an
  array index; the elements of a list in the order of their first appearance; the order
  in which an object enumerates the keys that were created in a given order; and the
  entries of the accumulator as the specification describes them.
\<close>

definition plain_digits :: "string \<Rightarrow> bool" where
  "plain_digits u = (list_all is_digit u \<and> (u = [] \<or> hd u \<noteq> CHR ''0''))"

definition index_value :: "string \<Rightarrow> int" where
  "index_value k = (case array_index k of None \<Rightarrow> 0 | Some i \<Rightarrow> i)"

definition first_seen :: "'a list \<Rightarrow> 'a list" where
  "first_seen ks = rev (remdups (rev ks))"

definition property_order :: "string list \<Rightarrow> string list" where
  "property_order ks =
     sort_key index_value (filter (\<lambda>k. array_index k \<noteq> None) (first_seen ks))
     @ filter (\<lambda>k. array_index k = None) (first_seen ks)"

definition host_counts :: "listing list \<Rightarrow> (string \<times> nat) list" where
  "host_counts d =
     map (\<lambda>k. (k, count_list (map host_key d) k)) (property_order (map host_key d))"

definition before_index :: "int \<Rightarrow> string \<Rightarrow> bool" where
  "before_index i k = (case array_index k of None \<Rightarrow> False | Some j \<Rightarrow> j < i)"

text \<open>
  For the store: the listings of a handler object; the listings behind a reference to an
  array; a reference that is valid in its store; and a store that has only grown.
\<close>

definition data_of :: "store \<Rightarrow> ref \<Rightarrow> listing list" where
  "data_of s h = arrays s ! (objects s ! h)"

definition content :: "ref \<times> store \<Rightarrow> listing list" where
  "content st = arrays (snd st) ! fst st"

definition valid :: "ref \<times> store \<Rightarrow> bool" where
  "valid st = (fst st < length (arrays (snd st)))"

definition grows :: "ref \<times> store \<Rightarrow> ref \<times> store \<Rightarrow> bool" where
  "grows st st' =
     (valid st' \<and> objects (snd st') = objects (snd st) \<and> prefix (arrays (snd st)) (arrays (snd st')))"




section \<open>Facts about rounding to a double\<close>

lemma bit_length_bounds:
  "0 < n \<Longrightarrow> 1 \<le> bit_length n \<and> 2 ^ nat (bit_length n - 1) \<le> n \<and> n < 2 ^ nat (bit_length n)"
proof (induction n rule: bit_length.induct)
  case (1 n)
  show ?case
  proof (cases "n div 2 = 0")
    case True
    with "1.prems" have "n = 1" by linarith
    then show ?thesis by (simp add: bit_length.simps)
  next
    case False
    with "1.prems" have pos: "0 < n div 2" by linarith
    define b where "b = bit_length (n div 2)"
    from "1.IH" pos "1.prems"
    have ih: "1 \<le> b" "2 ^ nat (b - 1) \<le> n div 2" "n div 2 < 2 ^ nat b"
      by (simp_all add: b_def)
    have bl: "bit_length n = b + 1"
      using "1.prems" by (simp add: bit_length.simps [of n] b_def)
    have "nat b = Suc (nat (b - 1))" using ih(1) by linarith
    then have "(2::int) ^ nat b = 2 * 2 ^ nat (b - 1)" by simp
    with ih(2) have lo: "2 ^ nat b \<le> n" by linarith
    have "nat (b + 1) = Suc (nat b)" using ih(1) by linarith
    then have "(2::int) ^ nat (b + 1) = 2 * 2 ^ nat b" by simp
    with ih(3) have hi: "n < 2 ^ nat (b + 1)" by linarith
    from ih(1) lo hi show ?thesis by (simp add: bl)
  qed
qed


lemma two_powi_nat: "0 \<le> k \<Longrightarrow> (2::rat) powi k = of_int (2 ^ nat k)"
  by (simp add: power_int_def)

lemma bit_length_bounds_rat:
  assumes "0 < n"
  shows "(2::rat) powi (bit_length n - 1) \<le> of_int n" and "of_int n < (2::rat) powi bit_length n"
proof -
  from bit_length_bounds [OF assms]
  have b: "1 \<le> bit_length n" "2 ^ nat (bit_length n - 1) \<le> n" "n < 2 ^ nat (bit_length n)"
    by simp_all
  have "(2::rat) powi (bit_length n - 1) = of_int (2 ^ nat (bit_length n - 1))"
    using b(1) by (intro two_powi_nat) simp
  also have "\<dots> \<le> of_int n"
    using b(2) by (simp only: of_int_le_iff)
  finally show "(2::rat) powi (bit_length n - 1) \<le> of_int n" .
  have "(2::rat) powi bit_length n = of_int (2 ^ nat (bit_length n))"
    using b(1) by (intro two_powi_nat) simp
  moreover have "(of_int n :: rat) < of_int (2 ^ nat (bit_length n))"
    using b(3) by (simp only: of_int_less_iff)
  ultimately show "of_int n < (2::rat) powi bit_length n" by simp
qed



lemma quotient_of_pos:
  assumes "0 < x" and "quotient_of x = (p, q)"
  shows "0 < p" and "0 < q" and "x = of_int p / of_int q"
proof -
  show q: "0 < q" using assms(2) by (rule quotient_of_denom_pos)
  show x: "x = of_int p / of_int q" using assms(2) by (rule quotient_of_div)
  from assms(1) q show "0 < p"
    unfolding x by (simp add: zero_less_divide_iff)
qed

lemma floor_log2_bounds:
  assumes "0 < x"
  shows "2 powi floor_log2 x \<le> x" and "x < 2 powi (floor_log2 x + 1)"
proof -
  obtain p q where pq: "quotient_of x = (p, q)" by (cases "quotient_of x")
  note pos = quotient_of_pos(1,2) [OF assms pq] and x = quotient_of_pos(3) [OF assms pq]
  define a where "a = bit_length p"
  define b where "b = bit_length q"
  define d where "d = a - b"
  note pb = bit_length_bounds_rat [OF pos(1), folded a_def]
  note qb = bit_length_bounds_rat [OF pos(2), folded b_def]
  have "x < 2 powi a / 2 powi (b - 1)"
    unfolding x using pb(2) qb(1) pos by (simp add: frac_less)
  also have "\<dots> = 2 powi (a - (b - 1))"
    by (rule power_int_diff [symmetric]) simp
  finally have hi: "x < 2 powi (d + 1)"
    by (simp add: d_def algebra_simps)
  have "(2::rat) powi (d - 1) = 2 powi ((a - 1) - b)"
    by (simp add: d_def algebra_simps)
  also have "\<dots> = 2 powi (a - 1) / 2 powi b"
    by (rule power_int_diff) simp
  also have "\<dots> \<le> of_int p / 2 powi b"
    using pb(1) by (intro divide_right_mono) simp_all
  also have "\<dots> < of_int p / of_int q"
    using qb(2) pos by (intro divide_strict_left_mono) simp_all
  finally have lo: "2 powi (d - 1) < x"
    by (simp only: x)
  have fl: "floor_log2 x = (if 2 powi d \<le> x then d else d - 1)"
    by (simp add: floor_log2_def pq a_def b_def d_def Let_def)
  show "2 powi floor_log2 x \<le> x"
    using lo by (simp add: fl)
  show "x < 2 powi (floor_log2 x + 1)"
    using hi by (simp add: fl)
qed

lemma round_half_even_of_int: "round_half_even (of_int k) = k"
  by (simp add: round_half_even_def)

lemma floor_le_round_half_even: "\<lfloor>q\<rfloor> \<le> round_half_even q"
  by (simp add: round_half_even_def Let_def)

lemma two_powi_strict_mono: "(2::rat) powi a < 2 powi b \<longleftrightarrow> a < b"
proof
  assume less: "(2::rat) powi a < 2 powi b"
  show "a < b"
  proof (rule ccontr)
    assume "\<not> a < b"
    then have "b \<le> a" by simp
    then have "(2::rat) powi b \<le> 2 powi a" by (rule power_int_increasing) simp
    with less show False by simp
  qed
next
  assume "a < b"
  then show "(2::rat) powi a < 2 powi b" by (rule power_int_strict_increasing) simp
qed

lemma two_powi_mono: "(2::rat) powi a \<le> 2 powi b \<longleftrightarrow> a \<le> b"
  using two_powi_strict_mono [of b a] by (simp only: not_less [symmetric])

lemma to_double_unfold:
  assumes "x \<noteq> 0"
    and "u = 2 powi (max (floor_log2 \<bar>x\<bar>) (- 1022) - 52)"
    and "y = of_int (round_half_even (x / u)) * u"
  shows "to_double x = (if 2 ^ 1024 \<le> \<bar>y\<bar> then (if 0 < x then PInf else NInf) else Fin y)"
  unfolding to_double_def Let_def assms(2,3) using assms(1) by (simp only: if_False)

lemma to_double_of_int:
  assumes "\<bar>n\<bar> < 2 ^ 53"
  shows "to_double (of_int n) = Fin (of_int n)"
proof (cases "n = 0")
  case True
  then show ?thesis by (simp add: to_double_def)
next
  case False
  define x :: rat where "x = of_int n"
  define e where "e = floor_log2 \<bar>x\<bar>"
  from False have nz: "x \<noteq> 0" and pos: "0 < \<bar>x\<bar>" and one: "1 \<le> \<bar>x\<bar>"
    by (simp_all add: x_def flip: of_int_abs)
  have "(of_int \<bar>n\<bar> :: rat) < of_int (2 ^ 53)"
    using assms by (simp only: of_int_less_iff)
  then have small: "\<bar>x\<bar> < 2 powi 53"
    by (simp add: x_def)
  note fl = floor_log2_bounds [OF pos, folded e_def]
  from fl(1) small have "(2::rat) powi e < 2 powi 53" by simp
  then have e_hi: "e < 53" by (simp only: two_powi_strict_mono)
  from fl(2) one have "(2::rat) powi 0 < 2 powi (e + 1)" by simp
  then have e_lo: "0 \<le> e" by (simp only: two_powi_strict_mono)
  define k where "k = nat (52 - e)"
  define u :: rat where "u = 1 / 2 ^ k"
  have "max e (- 1022) - 52 = - int k" using e_lo e_hi by (simp add: k_def)
  moreover have "(2::rat) powi (- int k) = u"
    by (simp add: power_int_minus field_simps u_def)
  ultimately have "(2::rat) powi (max e (- 1022) - 52) = u"
    by (simp only:)
  then have u: "u = 2 powi (max (floor_log2 \<bar>x\<bar>) (- 1022) - 52)"
    by (simp only: e_def)
  have "x / u = of_int (n * 2 ^ k)"
    by (simp add: x_def u_def)
  then have r: "round_half_even (x / u) = n * 2 ^ k"
    by (simp only: round_half_even_of_int)
  have "of_int (n * 2 ^ k) * u = x"
    by (simp add: x_def u_def)
  then have y: "x = of_int (round_half_even (x / u)) * u"
    by (simp only: r)
  have "(2::rat) powi 53 \<le> 2 powi 1024"
    by (simp only: two_powi_mono)
  with small have "\<bar>x\<bar> < 2 powi 1024" by (rule less_le_trans)
  then have "\<not> 2 ^ 1024 \<le> \<bar>x\<bar>" by simp
  with to_double_unfold [OF nz u y] have "to_double x = Fin x"
    by (simp only: if_False)
  then show ?thesis by (simp only: x_def)
qed

lemma to_double_overflow:
  assumes "2 ^ 1024 \<le> x"
  shows "to_double x = PInf"
proof -
  define e where "e = floor_log2 \<bar>x\<bar>"
  have "(0::rat) < 2 ^ 1024" by simp
  with assms have pos: "0 < x" by (rule less_le_trans [rotated])
  then have ab: "\<bar>x\<bar> = x" and nz: "x \<noteq> 0" by simp_all
  from pos have "0 < \<bar>x\<bar>" by simp
  note fl = floor_log2_bounds [OF this, folded e_def, unfolded ab]
  have "(2::rat) powi 1024 = 2 ^ 1024" by simp
  with assms fl(2) have "(2::rat) powi 1024 < 2 powi (e + 1)" by simp
  then have e_lo: "1024 \<le> e" by (simp only: two_powi_strict_mono)
  define u :: rat where "u = 2 powi (e - 52)"
  define y :: rat where "y = of_int (round_half_even (x / u)) * u"
  have upos: "0 < u" by (simp add: u_def)
  have "max e (- 1022) - 52 = e - 52" using e_lo by simp
  then have u: "u = 2 powi (max (floor_log2 \<bar>x\<bar>) (- 1022) - 52)"
    by (simp only: u_def e_def)
  have "(2::rat) powi 52 * 2 powi (e - 52) = 2 powi (52 + (e - 52))"
    by (rule power_int_add [symmetric]) simp
  moreover have "(of_int (2 ^ 52) :: rat) = 2 powi 52"
    by simp
  ultimately have pu: "of_int (2 ^ 52) * u = 2 powi e"
    by (simp only: u_def) simp
  with fl(1) upos have "of_int (2 ^ 52) \<le> x / u"
    by (simp add: pos_le_divide_eq)
  then have "2 ^ 52 \<le> \<lfloor>x / u\<rfloor>"
    by (simp only: le_floor_iff)
  then have "2 ^ 52 \<le> round_half_even (x / u)"
    using floor_le_round_half_even [of "x / u"] by (rule order_trans)
  then have "(of_int (2 ^ 52) :: rat) \<le> of_int (round_half_even (x / u))"
    by (simp only: of_int_le_iff)
  with upos have "of_int (2 ^ 52) * u \<le> y"
    unfolding y_def by (simp only: mult_le_cancel_right_pos)
  with pu have "2 powi e \<le> y"
    by simp
  moreover have "(2::rat) powi 1024 \<le> 2 powi e"
    using e_lo by (simp only: two_powi_mono)
  ultimately have "2 powi 1024 \<le> y"
    by (rule order_trans [rotated])
  moreover have "y \<le> \<bar>y\<bar>" by (rule abs_ge_self)
  ultimately have "2 powi 1024 \<le> \<bar>y\<bar>" by (rule order_trans)
  then have "2 ^ 1024 \<le> \<bar>y\<bar>" by simp
  with to_double_unfold [OF nz u y_def] pos show ?thesis
    by (simp only: if_True)
qed

lemma to_double_numeral:
  "(numeral k :: int) < 2 ^ 53 \<Longrightarrow> to_double (numeral k) = Fin (numeral k)"
  using to_double_of_int [of "numeral k"] by simp

lemma to_double_zero: "to_double 0 = Fin 0"
  by (simp add: to_double_def)

lemma to_double_one: "to_double 1 = Fin 1"
  using to_double_of_int [of 1] by simp

section \<open>Facts about parsing a price\<close>


lemma digit_not_whitespace: "is_digit c \<or> c = CHR ''.'' \<Longrightarrow> \<not> is_whitespace c"
  by (auto simp: is_digit_def is_whitespace_def)

lemma digit_not_sign: "is_digit c \<or> c = CHR ''.'' \<Longrightarrow> c \<noteq> CHR ''-'' \<and> c \<noteq> CHR ''+'' \<and> c \<noteq> CHR ''I''"
  by (auto simp: is_digit_def)

lemma digit_val_nonneg: "is_digit c \<Longrightarrow> 0 \<le> digit_val c"
  by (auto simp: is_digit_def digit_val_def)

lemma foldl_digits_nonneg:
  "list_all is_digit ds \<Longrightarrow> 0 \<le> n \<Longrightarrow> 0 \<le> foldl (\<lambda>n c. 10 * n + digit_val c) n ds"
proof (induction ds arbitrary: n)
  case Nil
  then show ?case by simp
next
  case (Cons c ds)
  from Cons.prems have "0 \<le> 10 * n + digit_val c"
    using digit_val_nonneg [of c] by simp
  with Cons show ?case by simp
qed

lemma digits_value_nonneg: "0 \<le> digits_value (takeWhile is_digit u)"
proof -
  have "list_all is_digit (takeWhile is_digit u)"
    by (simp add: list_all_iff) (meson set_takeWhileD)
  then show ?thesis
    unfolding digits_value_def by (rule foldl_digits_nonneg) simp
qed

lemma digits_value_fraction_nonneg:
  "0 \<le> digits_value (if b then takeWhile is_digit u else [])"
  using digits_value_nonneg [of u] by (simp add: digits_value_def)

lemma decimal_literal_nonneg:
  assumes "decimal_literal u = Some q"
  shows "0 \<le> q"
proof -
  define ip where "ip = takeWhile is_digit u"
  define r1 where "r1 = dropWhile is_digit u"
  define hp where "hp = (r1 \<noteq> [] \<and> hd r1 = CHR ''.'')"
  define fp where "fp = (if hp then takeWhile is_digit (tl r1) else [])"
  define r2 where "r2 = (if hp then dropWhile is_digit (tl r1) else r1)"
  have "decimal_literal u =
      (if ip = [] \<and> fp = [] then None
       else Some ((of_int (digits_value ip) + of_int (digits_value fp) / 10 ^ length fp)
                    * 10 powi exponent_part r2))"
    by (simp add: decimal_literal_def Let_def ip_def r1_def hp_def fp_def r2_def)
  with assms have q: "q = (of_int (digits_value ip) + of_int (digits_value fp) / 10 ^ length fp)
                    * 10 powi exponent_part r2"
    by (simp split: if_splits)
  have "0 \<le> digits_value ip"
    unfolding ip_def by (rule digits_value_nonneg)
  moreover have "0 \<le> digits_value fp"
    unfolding fp_def by (rule digits_value_fraction_nonneg)
  ultimately have "0 \<le> (of_int (digits_value ip) :: rat) + of_int (digits_value fp) / 10 ^ length fp"
    by simp
  moreover have "(0::rat) \<le> 10 powi exponent_part r2"
    by simp
  ultimately show ?thesis
    unfolding q by (rule mult_nonneg_nonneg)
qed

lemma to_double_nonneg: "0 \<le> x \<Longrightarrow> to_double x \<noteq> NInf"
  by (simp add: to_double_def Let_def)

lemma parseFloat_stripped:
  assumes "\<forall>c \<in> set t. is_digit c \<or> c = CHR ''.''"
  shows "parseFloat t = (case decimal_literal t of None \<Rightarrow> NaN | Some q \<Rightarrow> to_double q)"
proof (cases t)
  case Nil
  then show ?thesis by (simp add: parseFloat_def split_sign_def split: option.splits)
next
  case (Cons c r)
  with assms have c: "is_digit c \<or> c = CHR ''.''" by simp
  then have "dropWhile is_whitespace t = t"
    using Cons digit_not_whitespace [of c] by simp
  moreover have "split_sign t = (False, t)"
    using Cons c digit_not_sign [of c] by (simp add: split_sign_def)
  moreover have "\<not> prefix ''Infinity'' t"
    using Cons c digit_not_sign [of c] by auto
  ultimately show ?thesis by (simp add: parseFloat_def split: option.splits)
qed

lemma extractPrice_cases:
  "extractPrice s = NaN \<or> extractPrice s = PInf \<or> (\<exists>q. extractPrice s = Fin q)"
proof -
  let ?t = "filter (\<lambda>c. is_digit c \<or> c = CHR ''.'') s"
  have pf: "parseFloat ?t = (case decimal_literal ?t of None \<Rightarrow> NaN | Some q \<Rightarrow> to_double q)"
    by (rule parseFloat_stripped) simp
  have "extractPrice s \<noteq> NInf"
  proof (cases "decimal_literal ?t")
    case None
    with pf show ?thesis by (simp add: extractPrice_def)
  next
    case (Some q)
    then have "0 \<le> q" by (rule decimal_literal_nonneg)
    then have "to_double q \<noteq> NInf" by (rule to_double_nonneg)
    with pf Some show ?thesis by (simp add: extractPrice_def)
  qed
  then show ?thesis by (cases "extractPrice s") simp_all
qed

lemma takeWhile_no_digit: "\<forall>c \<in> set r. \<not> is_digit c \<Longrightarrow> takeWhile is_digit r = []"
  by (cases r) simp_all

lemma extractPrice_no_digit:
  assumes "\<forall>c \<in> set s. \<not> is_digit c"
  shows "extractPrice s = NaN"
proof -
  define t where "t = filter (\<lambda>c. is_digit c \<or> c = CHR ''.'') s"
  have dots: "\<forall>c \<in> set t. \<not> is_digit c"
    using assms by (simp add: t_def)
  then have ip: "takeWhile is_digit t = []"
    by (rule takeWhile_no_digit)
  have "takeWhile is_digit t @ dropWhile is_digit t = t"
    by (rule takeWhile_dropWhile_id)
  with ip have r1: "dropWhile is_digit t = t"
    by simp
  have "\<forall>c \<in> set (tl t). \<not> is_digit c"
    using dots by (cases t) simp_all
  then have fp: "takeWhile is_digit (tl t) = []"
    by (rule takeWhile_no_digit)
  have "decimal_literal t = None"
    by (simp add: decimal_literal_def Let_def ip r1 fp)
  moreover have "parseFloat t = (case decimal_literal t of None \<Rightarrow> NaN | Some q \<Rightarrow> to_double q)"
    by (rule parseFloat_stripped) (simp add: t_def)
  ultimately show ?thesis by (simp add: extractPrice_def t_def)
qed

lemma foldl_zeros:
  "foldl (\<lambda>n c. 10 * n + digit_val c) m (replicate k (CHR ''0'')) = m * 10 ^ k"
  by (induction k arbitrary: m) (simp_all add: digit_val_def)

lemma digit_val_one: "digit_val (CHR ''1'') = 1"
  by (simp add: digit_val_def)

lemma digits_value_one_zeros: "digits_value (CHR ''1'' # replicate k (CHR ''0'')) = 10 ^ k"
  by (simp only: digits_value_def foldl_Cons digit_val_one foldl_zeros) simp

lemma decimal_literal_digits:
  assumes "\<forall>c \<in> set u. is_digit c" and "u \<noteq> []"
  shows "decimal_literal u = Some (of_int (digits_value u))"
proof -
  from assms have tw: "takeWhile is_digit u = u" and dw: "dropWhile is_digit u = []"
    by simp_all
  show ?thesis
    using assms(2) by (simp add: decimal_literal_def Let_def exponent_part_def tw dw)
       (simp add: digits_value_def)
qed

lemma extractPrice_overflow: "extractPrice (CHR ''1'' # replicate 309 (CHR ''0'')) = PInf"
proof -
  define s where "s = CHR ''1'' # replicate 309 (CHR ''0'')"
  have "is_digit (CHR ''1'')" and "is_digit (CHR ''0'')"
    by (simp_all add: is_digit_def)
  then have digits: "\<forall>c \<in> set s. is_digit c"
    unfolding s_def by (simp only: set_simps set_replicate_conv_if) simp
  then have "filter (\<lambda>c. is_digit c \<or> c = CHR ''.'') s = s"
    by (simp only: filter_id_conv) blast
  moreover have "parseFloat s = (case decimal_literal s of None \<Rightarrow> NaN | Some q \<Rightarrow> to_double q)"
    using digits by (intro parseFloat_stripped) blast
  moreover have "decimal_literal s = Some (of_int (digits_value s))"
    using digits by (intro decimal_literal_digits) (simp_all only: s_def list.distinct not_False_eq_True)
  moreover have "digits_value s = 10 ^ 309"
    unfolding s_def by (rule digits_value_one_zeros)
  moreover have "to_double (of_int (10 ^ 309)) = PInf"
    by (rule to_double_overflow) simp
  ultimately have "extractPrice s = PInf"
    by (simp only: extractPrice_def option.case)
  then show ?thesis by (simp only: s_def)
qed

section \<open>Properties of filter\<close>

lemma then_do_Inl [simp]: "then_do (Inl e) f = Inl e"
  by (simp add: then_do_def)


lemma then_do_Inr [simp]: "then_do (Inr x) f = f x"
  by (simp add: then_do_def)


lemma error_TypeError: "(e::error) = TypeError"
  by (cases e) simp


lemma filter_array_Inr:
  assumes "\<forall>x\<in>set xs. p x = Inr (q x)"
  shows "filter_array p xs = Inr (filter q xs)"
  using assms by (induction xs) simp_all


lemma filter_array_Inl:
  assumes "x \<in> set xs" and "p x = Inl e"
  shows "filter_array p xs = Inl TypeError"
  using assms
proof (induction xs)
  case Nil
  then show ?case by simp
next
  case (Cons a xs)
  show ?case
  proof (cases "p a")
    case (Inl e')
    then show ?thesis by (simp add: error_TypeError)
  next
    case (Inr keep)
    with Cons.prems have "p a \<noteq> Inl e" by simp
    with Cons.prems have "x \<in> set xs" by auto
    with Cons have "filter_array p xs = Inl TypeError" by simp
    with Inr show ?thesis by simp
  qed
qed


lemma price_pass:
  "filter_array (\<lambda>listing. call_on (field listing ''price'') (\<lambda>s. js_le (extractPrice s) p)) d =
     (if \<exists>listing \<in> set d. field listing ''price'' = None then Inl TypeError
      else Inr (filter (meets_price (Some p)) d))"
proof (cases "\<exists>listing \<in> set d. field listing ''price'' = None")
  case True
  then obtain l where "l \<in> set d" "field l ''price'' = None" by blast
  then have "filter_array (\<lambda>listing. call_on (field listing ''price'') (\<lambda>s. js_le (extractPrice s) p)) d
      = Inl TypeError"
    by (intro filter_array_Inl [where x = l and e = TypeError]) (simp_all add: call_on_def)
  with True show ?thesis by simp
next
  case False
  then have "\<forall>x\<in>set d. call_on (field x ''price'') (\<lambda>s. js_le (extractPrice s) p)
      = Inr (meets_price (Some p) x)"
    by (auto simp: call_on_def meets_price_def)
  then have "filter_array (\<lambda>listing. call_on (field listing ''price'') (\<lambda>s. js_le (extractPrice s) p)) d
      = Inr (filter (meets_price (Some p)) d)"
    by (rule filter_array_Inr)
  with False show ?thesis by simp
qed


lemma filter_criteria_closed:
  "filter_criteria h c =
     (if price_throws c (data h) then Inl TypeError
      else Inr (AirBnBDataHandler (filter (meets c) (data h))))"
proof -
  have rest: "(let d2 = (case room_type c of
                      None \<Rightarrow> d1
                    | Some rt \<Rightarrow>
                        if rt = [] then d1
                        else filter (\<lambda>listing. field listing ''room_type'' = Some rt) d1);
              d3 = (case bedrooms c of
                      None \<Rightarrow> d2
                    | Some b \<Rightarrow>
                        filter
                          (\<lambda>listing. js_strict_eq (parseInt (ToString (field listing ''bedrooms''))) b)
                          d2);
              d4 = (case review_scores_rating c of
                      None \<Rightarrow> d3
                    | Some m \<Rightarrow>
                        filter
                          (\<lambda>listing.
                             js_ge (parseFloat (ToString (field listing ''review_scores_rating''))) m)
                          d3)
          in d4) = filter (\<lambda>l. meets_room_type (room_type c) l
      \<and> meets_bedrooms (bedrooms c) l \<and> meets_rating (review_scores_rating c) l) d1" for d1
    by (simp add: Let_def meets_room_type_def meets_bedrooms_def meets_rating_def conj_commute
        split: option.splits)
  show ?thesis
  proof (cases "price c")
    case None
    then show ?thesis
      using rest [of "data h"]
      by (simp add: filter_criteria_def price_throws_def meets_def [abs_def] meets_price_def Let_def)
  next
    case (Some p)
    then show ?thesis
      using rest [of "filter (meets_price (Some p)) (data h)"]
      by (simp add: filter_criteria_def price_pass price_throws_def meets_def [abs_def] Let_def conj_commute)
  qed
qed

lemma data_AirBnBDataHandler [simp]: "data (AirBnBDataHandler d) = d"
  by (simp add: AirBnBDataHandler_def)

lemmas parse_eval =
  extractPrice_def parseFloat_def parseInt_def split_sign_def decimal_literal_def exponent_part_def
  digits_value_def hex_value_def digit_val_def hex_val_def is_digit_def is_hex_digit_def
  is_whitespace_def ToString_def Let_def to_double_numeral to_double_zero to_double_one

lemmas handler_eval =
  filter_criteria_def filterByHostLocation_def call_on_def field_def js_ge_def js_strict_eq_def

lemma price_throws_simps [simp]:
  "price_throws \<lparr>price = None, room_type = r, bedrooms = b, review_scores_rating = m\<rparr> d = False"
  by (simp add: price_throws_def)

lemma meets_None [simp]:
  "meets_price None l" "meets_room_type None l" "meets_bedrooms None l" "meets_rating None l"
  by (simp_all add: meets_price_def meets_room_type_def meets_bedrooms_def meets_rating_def)








lemma js_le_finite:
  assumes "p \<noteq> PInf"
  shows "js_le (extractPrice s) p \<longleftrightarrow> is_finite (extractPrice s) \<and> js_le (extractPrice s) p"
  using extractPrice_cases [of s] assms
  by (cases p) (auto simp: is_finite_def)

text \<open>
  Claim C5, amended. For a price criterion other than \<open>+Infinity\<close>, filter keeps exactly the
  listings whose price, stripped to digits and points, parses to a finite number that is
  at most the criterion; a listing whose price does not parse to a finite number is left
  out. A listing with no price at all makes the call throw a TypeError.
\<close>

theorem filter_price_at_most:
  assumes "p \<noteq> PInf"
  shows "filter_criteria h \<lparr>price = Some p, room_type = None, bedrooms = None, review_scores_rating = None\<rparr> =
     (if \<exists>listing \<in> set (data h). field listing ''price'' = None then Inl TypeError
      else Inr (AirBnBDataHandler
                  (filter
                     (\<lambda>listing. case field listing ''price'' of
                                   None \<Rightarrow> False
                                 | Some s \<Rightarrow> is_finite (extractPrice s) \<and> js_le (extractPrice s) p)
                     (data h))))"
proof -
  have "meets \<lparr>price = Some p, room_type = None, bedrooms = None, review_scores_rating = None\<rparr> =
      (\<lambda>listing. case field listing ''price'' of
                                   None \<Rightarrow> False
                                 | Some s \<Rightarrow> is_finite (extractPrice s) \<and> js_le (extractPrice s) p)"
    using js_le_finite [OF assms]
    by (auto simp: meets_def meets_price_def fun_eq_iff split: option.splits)
  then show ?thesis
    by (simp add: filter_criteria_closed price_throws_def)
qed

lemma price_example:
  "filter_criteria
     (AirBnBDataHandler [[(''price'', ''$1,040.00'')], [(''price'', ''$99.00'')], [(''price'', ''N/A'')]])
     \<lparr>price = Some (Fin 100), room_type = None, bedrooms = None, review_scores_rating = None\<rparr>
   = Inr (AirBnBDataHandler [[(''price'', ''$99.00'')]])"
  by (simp add: handler_eval parse_eval)

theorem filter_price_at_most_witness:
  "Fin 100 \<noteq> PInf
   \<and> filter
      (\<lambda>listing. case field listing ''price'' of
                    None \<Rightarrow> False
                  | Some s \<Rightarrow> is_finite (extractPrice s) \<and> js_le (extractPrice s) (Fin 100))
      [[(''price'', ''$1,040.00'')], [(''price'', ''$99.00'')], [(''price'', ''N/A'')]]
     = [[(''price'', ''$99.00'')]]"
proof -
  define h where "h = AirBnBDataHandler
      [[(''price'', ''$1,040.00'')], [(''price'', ''$99.00'')], [(''price'', ''N/A'')]]"
  define P where "P = (\<lambda>listing. case field listing ''price'' of
                    None \<Rightarrow> False
                  | Some s \<Rightarrow> is_finite (extractPrice s) \<and> js_le (extractPrice s) (Fin 100))"
  have fin: "Fin 100 \<noteq> PInf" by simp
  have present: "\<not> (\<exists>listing \<in> set (data h). field listing ''price'' = None)"
    by (simp add: h_def field_def)
  from filter_price_at_most [OF fin, of h] present
  have "filter_criteria h
          \<lparr>price = Some (Fin 100), room_type = None, bedrooms = None, review_scores_rating = None\<rparr>
        = Inr (AirBnBDataHandler (filter P (data h)))"
    by (simp only: if_False P_def)
  with price_example have "AirBnBDataHandler (filter P (data h)) = AirBnBDataHandler [[(''price'', ''$99.00'')]]"
    by (simp only: h_def sum.inject)
  then have "data (AirBnBDataHandler (filter P (data h))) = data (AirBnBDataHandler [[(''price'', ''$99.00'')]])"
    by (rule arg_cong)
  then have "filter P [[(''price'', ''$1,040.00'')], [(''price'', ''$99.00'')], [(''price'', ''N/A'')]]
      = [[(''price'', ''$99.00'')]]"
    by (simp only: data_AirBnBDataHandler h_def)
  with fin show ?thesis by (simp only: P_def simp_thms)
qed

text \<open>
  With the criterion \<open>+Infinity\<close> a listing whose price overflows to \<open>Infinity\<close> is kept:
  the price is a one followed by 309 zeros.
\<close>

theorem filter_price_infinity_counterexample:
  "filter_criteria
     (AirBnBDataHandler [[(''price'', CHR ''1'' # replicate 309 (CHR ''0''))]])
     \<lparr>price = Some PInf, room_type = None, bedrooms = None, review_scores_rating = None\<rparr>
   = Inr (AirBnBDataHandler [[(''price'', CHR ''1'' # replicate 309 (CHR ''0''))]])
   \<and> \<not> is_finite (extractPrice (CHR ''1'' # replicate 309 (CHR ''0'')))"
proof -
  define s where "s = CHR ''1'' # replicate 309 (CHR ''0'')"
  define c where "c = \<lparr>price = Some PInf, room_type = None, bedrooms = None, review_scores_rating = None\<rparr>"
  have e: "extractPrice s = PInf"
    unfolding s_def by (rule extractPrice_overflow)
  have f: "field [(''price'', s)] ''price'' = Some s"
    by (simp add: field_def)
  have "meets c [(''price'', s)]"
    by (simp add: c_def meets_def meets_price_def meets_room_type_def meets_bedrooms_def
        meets_rating_def f e)
  moreover have "\<not> price_throws c [[(''price'', s)]]"
    by (simp add: price_throws_def f)
  ultimately have "filter_criteria (AirBnBDataHandler [[(''price'', s)]]) c
      = Inr (AirBnBDataHandler [[(''price'', s)]])"
    by (simp add: filter_criteria_closed AirBnBDataHandler_def)
  moreover have "\<not> is_finite (extractPrice s)"
    by (simp add: e is_finite_def)
  ultimately show ?thesis
    unfolding s_def c_def by (rule conjI)
qed

text \<open>
  Claim C4, amended. For a room_type criterion that is not the empty string, filter keeps
  exactly the listings whose room_type is equal to it, code unit by code unit. The empty
  string, like a missing criterion, asks nothing: every listing is kept.
\<close>

theorem filter_room_type_equal:
  "(rt \<noteq> [] \<longrightarrow>
      filter_criteria h \<lparr>price = None, room_type = Some rt, bedrooms = None, review_scores_rating = None\<rparr> =
        Inr (AirBnBDataHandler (filter (\<lambda>listing. field listing ''room_type'' = Some rt) (data h))))
   \<and> filter_criteria h \<lparr>price = None, room_type = Some [], bedrooms = None, review_scores_rating = None\<rparr> =
        Inr (AirBnBDataHandler (data h))
   \<and> (room_type c = Some rt \<and> rt \<noteq> [] \<longrightarrow>
      filter_criteria h c =
        then_do (filter_criteria h (c\<lparr>room_type := None\<rparr>))
          (\<lambda>h1. Inr (AirBnBDataHandler
                        (filter (\<lambda>listing. field listing ''room_type'' = Some rt) (data h1)))))"
  by (auto simp: filter_criteria_closed price_throws_def meets_def [abs_def] meets_room_type_def
      AirBnBDataHandler_def conj_commute conj_left_commute cong: conj_cong)

lemma room_type_example:
  "filter_criteria
     (AirBnBDataHandler
        [[(''room_type'', ''Private room'')], [(''room_type'', ''private room'')],
         [(''room_type'', ''Private room '')], [(''price'', ''$10'')]])
     \<lparr>price = None, room_type = Some ''Private room'', bedrooms = None, review_scores_rating = None\<rparr>
   = Inr (AirBnBDataHandler [[(''room_type'', ''Private room'')]])"
  by (simp add: handler_eval)

theorem filter_room_type_equal_witness:
  "''Private room'' \<noteq> []
   \<and> filter (\<lambda>listing. field listing ''room_type'' = Some ''Private room'')
       [[(''room_type'', ''Private room'')], [(''room_type'', ''private room'')],
        [(''room_type'', ''Private room '')], [(''price'', ''$10'')]]
     = [[(''room_type'', ''Private room'')]]"
proof -
  define d where "d = [[(''room_type'', ''Private room'')], [(''room_type'', ''private room'')],
        [(''room_type'', ''Private room '')], [(''price'', ''$10'')]]"
  define P where "P = (\<lambda>listing. field listing ''room_type'' = Some ''Private room'')"
  have ne: "''Private room'' \<noteq> []" by simp
  from filter_room_type_equal [THEN conjunct1, THEN mp, OF ne, of "AirBnBDataHandler d"]
  have "filter_criteria (AirBnBDataHandler d)
          \<lparr>price = None, room_type = Some ''Private room'', bedrooms = None, review_scores_rating = None\<rparr>
        = Inr (AirBnBDataHandler (filter P d))"
    by (simp only: P_def data_AirBnBDataHandler)
  with room_type_example [folded d_def]
  have "AirBnBDataHandler (filter P d) = AirBnBDataHandler [[(''room_type'', ''Private room'')]]"
    by (simp only: sum.inject)
  then have "data (AirBnBDataHandler (filter P d)) = data (AirBnBDataHandler [[(''room_type'', ''Private room'')]])"
    by (rule arg_cong)
  then have "filter P d = [[(''room_type'', ''Private room'')]]"
    by (simp only: data_AirBnBDataHandler)
  with ne show ?thesis by (simp only: P_def d_def simp_thms)
qed

text \<open>
  With the empty string as room_type the listing of a private room is kept, although its
  room_type is not the empty string.
\<close>

theorem filter_room_type_empty_counterexample:
  "filter_criteria
     (AirBnBDataHandler [[(''room_type'', ''Private room'')]])
     \<lparr>price = None, room_type = Some [], bedrooms = None, review_scores_rating = None\<rparr>
   = Inr (AirBnBDataHandler [[(''room_type'', ''Private room'')]])
   \<and> field [(''room_type'', ''Private room'')] ''room_type'' \<noteq> Some []"
  by (simp add: handler_eval)

section \<open>Properties of filterByHostLocation\<close>

lemma includes_str_sublist: "includes_str s t = sublist t s"
  by (induction s) (simp_all add: sublist_Cons_right)


lemma includes_str_iff: "includes_str s t \<longleftrightarrow> (\<exists>ps ss. s = ps @ t @ ss)"
  by (simp add: includes_str_sublist sublist_def)


lemma host_location_pass:
  "filter_array (\<lambda>listing. call_on (field listing ''host_location'') (\<lambda>s. includes_str s loc)) d =
     (if \<exists>listing \<in> set d. field listing ''host_location'' = None then Inl TypeError
      else Inr (filter (\<lambda>listing. \<exists>ps ss. the (field listing ''host_location'') = ps @ loc @ ss) d))"
proof (cases "\<exists>listing \<in> set d. field listing ''host_location'' = None")
  case True
  then obtain l where "l \<in> set d" "field l ''host_location'' = None" by blast
  then have "filter_array (\<lambda>listing. call_on (field listing ''host_location'') (\<lambda>s. includes_str s loc)) d
      = Inl TypeError"
    by (intro filter_array_Inl [where x = l and e = TypeError]) (simp_all add: call_on_def)
  with True show ?thesis by simp
next
  case False
  then have "\<forall>x\<in>set d. call_on (field x ''host_location'') (\<lambda>s. includes_str s loc)
      = Inr (\<exists>ps ss. the (field x ''host_location'') = ps @ loc @ ss)"
    by (auto simp: call_on_def includes_str_iff)
  then have "filter_array (\<lambda>listing. call_on (field listing ''host_location'') (\<lambda>s. includes_str s loc)) d
      = Inr (filter (\<lambda>listing. \<exists>ps ss. the (field listing ''host_location'') = ps @ loc @ ss) d)"
    by (rule filter_array_Inr)
  with False show ?thesis by simp
qed


text \<open>
  Claim C9. When every record has a host_location, filterByHostLocation keeps exactly the
  records whose host_location contains the given text at some position, compared code
  unit by code unit. When some record has no host_location, the call throws a TypeError
  and returns nothing.
\<close>

theorem filterByHostLocation_substring:
  "((\<forall>listing \<in> set (data h). field listing ''host_location'' \<noteq> None) \<longrightarrow>
      filterByHostLocation h loc =
        Inr (AirBnBDataHandler
               (filter (\<lambda>listing. \<exists>ps ss. the (field listing ''host_location'') = ps @ loc @ ss)
                  (data h))))
   \<and> ((\<exists>listing \<in> set (data h). field listing ''host_location'' = None) \<longrightarrow>
      filterByHostLocation h loc = Inl TypeError)"
proof (intro conjI impI)
  assume "\<forall>listing \<in> set (data h). field listing ''host_location'' \<noteq> None"
  then have "\<not> (\<exists>listing \<in> set (data h). field listing ''host_location'' = None)"
    by blast
  then have "filter_array
      (\<lambda>listing. call_on (field listing ''host_location'') (\<lambda>s. includes_str s loc)) (data h) =
      Inr (filter (\<lambda>listing. \<exists>ps ss. the (field listing ''host_location'') = ps @ loc @ ss) (data h))"
    by (simp only: host_location_pass if_False)
  then show "filterByHostLocation h loc =
        Inr (AirBnBDataHandler
               (filter (\<lambda>listing. \<exists>ps ss. the (field listing ''host_location'') = ps @ loc @ ss)
                  (data h)))"
    by (simp add: filterByHostLocation_def)
next
  assume "\<exists>listing \<in> set (data h). field listing ''host_location'' = None"
  then have "filter_array
      (\<lambda>listing. call_on (field listing ''host_location'') (\<lambda>s. includes_str s loc)) (data h) =
      Inl TypeError"
    by (simp only: host_location_pass if_True)
  then show "filterByHostLocation h loc = Inl TypeError"
    by (simp add: filterByHostLocation_def)
qed

lemma paris_listings:
  "filterByHostLocation
     (AirBnBDataHandler [[(''host_location'', ''Paris, France'')], [(''host_location'', ''paris'')]])
     ''Paris'' = Inr (AirBnBDataHandler [[(''host_location'', ''Paris, France'')]])"
  by code_simp


theorem filterByHostLocation_substring_witness:
  "field [(''host_location'', ''Paris, France'')] ''host_location'' \<noteq> None
   \<and> field [(''host_location'', ''paris'')] ''host_location'' \<noteq> None
   \<and> filter (\<lambda>listing. \<exists>ps ss. the (field listing ''host_location'') = ps @ ''Paris'' @ ss)
        (data (AirBnBDataHandler
           [[(''host_location'', ''Paris, France'')], [(''host_location'', ''paris'')]]))
      = [[(''host_location'', ''Paris, France'')]]
   \<and> (\<exists>listing \<in> set (data (AirBnBDataHandler [[(''host_location'', ''Paris'')], [(''price'', ''$1'')]])).
        field listing ''host_location'' = None)
   \<and> filterByHostLocation (AirBnBDataHandler [[(''host_location'', ''Paris'')], [(''price'', ''$1'')]])
        ''Paris'' = Inl TypeError"
proof -
  let ?h = "AirBnBDataHandler [[(''host_location'', ''Paris, France'')], [(''host_location'', ''paris'')]]"
  let ?g = "AirBnBDataHandler [[(''host_location'', ''Paris'')], [(''price'', ''$1'')]]"
  have all: "\<forall>listing \<in> set (data ?h). field listing ''host_location'' \<noteq> None"
    by (simp add: AirBnBDataHandler_def field_def)
  have some: "\<exists>listing \<in> set (data ?g). field listing ''host_location'' = None"
    by (simp add: AirBnBDataHandler_def field_def)
  from all filterByHostLocation_substring [of ?h "''Paris''"]
  have "filterByHostLocation ?h ''Paris'' =
        Inr (AirBnBDataHandler
               (filter (\<lambda>listing. \<exists>ps ss. the (field listing ''host_location'') = ps @ ''Paris'' @ ss)
                  (data ?h)))"
    by blast
  with paris_listings
  have kept: "filter (\<lambda>listing. \<exists>ps ss. the (field listing ''host_location'') = ps @ ''Paris'' @ ss)
                  (data ?h) = [[(''host_location'', ''Paris, France'')]]"
    by (simp add: AirBnBDataHandler_def)
  from some filterByHostLocation_substring [of ?g "''Paris''"]
  have "filterByHostLocation ?g ''Paris'' = Inl TypeError"
    by blast
  moreover have "field [(''host_location'', ''Paris, France'')] ''host_location'' \<noteq> None"
    and "field [(''host_location'', ''paris'')] ''host_location'' \<noteq> None"
    by (simp_all add: field_def)
  ultimately show ?thesis using kept some by blast
qed

section \<open>Properties of computeStats\<close>

lemma trim_empty_iff: "trim s = [] \<longleftrightarrow> (\<forall>c \<in> set s. is_whitespace c)"
proof -
  have "trim s = [] \<longleftrightarrow> dropWhile is_whitespace (rev (dropWhile is_whitespace s)) = []"
    by (simp add: trim_def)
  also have "\<dots> \<longleftrightarrow> (\<forall>c \<in> set (dropWhile is_whitespace s). is_whitespace c)"
    by (simp add: dropWhile_eq_Nil_conv)
  also have "\<dots> \<longleftrightarrow> dropWhile is_whitespace s = []"
    by (metis dropWhile_eq_Nil_conv dropWhile_idem)
  also have "\<dots> \<longleftrightarrow> (\<forall>c \<in> set s. is_whitespace c)"
    by (simp add: dropWhile_eq_Nil_conv)
  finally show ?thesis .
qed

lemma empty_price_blank: "empty_price listing = blank_price listing"
  by (auto simp: empty_price_def blank_price_def trim_empty_iff split: option.splits)

lemma fold_stats_step_filter:
  "fold stats_step d acc = fold stats_step (filter (\<lambda>listing. \<not> blank_price listing) d) acc"
proof (induction d arbitrary: acc)
  case Nil
  show ?case by simp
next
  case (Cons l d)
  show ?case
  proof (cases "blank_price l")
    case True
    then have "stats_step l acc = acc"
      by (simp add: stats_step_def empty_price_blank)
    with True Cons show ?thesis by simp
  next
    case False
    with Cons show ?thesis by simp
  qed
qed

lemma map_of_obj_update:
  "map_of kvs k \<noteq> None \<Longrightarrow> map_of (obj_update kvs k v) = (map_of kvs)(k \<mapsto> v)"
  by (induction kvs) (auto simp: fun_eq_iff)

lemma map_of_obj_create:
  fixes kvs :: "('k \<times> 'v) list"
  assumes "map_of kvs k = None"
  shows "map_of (obj_create ix kvs k v) = (map_of kvs)(k \<mapsto> v)"
proof (cases "ix k")
  case None
  with assms show ?thesis
    by (auto simp: obj_create_def fun_eq_iff map_add_def split: option.splits)
next
  case (Some i)
  define P :: "'k \<times> 'v \<Rightarrow> bool" where "P = index_below ix i"
  have split: "kvs = takeWhile P kvs @ dropWhile P kvs" by simp
  have "map_of (takeWhile P kvs @ (k, v) # dropWhile P kvs) k' = ((map_of kvs)(k \<mapsto> v)) k'" for k'
  proof (cases "k' = k")
    case True
    from assms have "k \<notin> fst ` set kvs" by (simp add: map_of_eq_None_iff)
    then have "k \<notin> fst ` set (takeWhile P kvs)"
      by (metis (no_types, lifting) image_iff set_takeWhileD)
    then have "map_of (takeWhile P kvs) k = None" by (simp add: map_of_eq_None_iff)
    with True show ?thesis by (simp add: map_add_def)
  next
    case False
    have "map_of kvs k' = map_of (takeWhile P kvs @ dropWhile P kvs) k'" by simp
    also have "\<dots> = map_of (takeWhile P kvs @ (k, v) # dropWhile P kvs) k'"
      using False by (simp only: map_of_append) (simp add: map_add_def split: option.splits)
    finally show ?thesis using False by simp
  qed
  then show ?thesis
    by (simp add: obj_create_def Some P_def fun_eq_iff)
qed

lemma map_of_obj_put: "map_of (obj_put ix kvs k v) = (map_of kvs)(k \<mapsto> v)"
  by (simp add: obj_put_def map_of_obj_create map_of_obj_update)

lemma map_of_stats_step:
  "map_of (stats_step listing acc) =
     (if blank_price listing then map_of acc
      else (map_of acc)(bedroom_key listing \<mapsto>
             \<lparr>bucket_sum =
                js_add (case map_of acc (bedroom_key listing) of None \<Rightarrow> Fin 0 | Some b \<Rightarrow> bucket_sum b)
                  (price_value listing),
              bucket_count =
                (case map_of acc (bedroom_key listing) of None \<Rightarrow> 0 | Some b \<Rightarrow> bucket_count b) + 1\<rparr>))"
  by (cases "map_of acc (bedroom_key listing)")
     (simp_all add: stats_step_def empty_price_blank Let_def map_of_obj_put
        bedroom_key_def [symmetric] price_value_def [symmetric])

lemma map_of_fold_stats_step:
  "map_of (fold stats_step d acc) k =
     bucket_after (map_of acc k) (map price_value (bucket_members k d))"
proof (induction d arbitrary: acc)
  case Nil
  show ?case by (simp add: bucket_after_def bucket_members_def)
next
  case (Cons l d)
  have "map_of (fold stats_step (l # d) acc) k =
        bucket_after (map_of (stats_step l acc) k) (map price_value (bucket_members k d))"
    using Cons [of "stats_step l acc"] by simp
  also have "\<dots> = bucket_after (map_of acc k) (map price_value (bucket_members k (l # d)))"
    by (cases "map_of acc k")
       (simp_all add: map_of_stats_step bucket_after_def bucket_members_def)
  finally show ?case .
qed

lemmas stats_eval =
  computeStats_def stats_step_def empty_price_def trim_def field_def obj_put_def obj_create_def
  number_index_def index_below_def average_def

lemma js_add_NaN_right [simp]: "js_add a NaN = NaN"
  by (cases a) simp_all

lemma foldl_js_add_NaN_start: "foldl js_add NaN xs = NaN"
  by (induction xs) simp_all

lemma foldl_js_add_NaN: "NaN \<in> set xs \<Longrightarrow> foldl js_add a xs = NaN"
  by (induction xs arbitrary: a) (auto simp: foldl_js_add_NaN_start)

lemma map_of_averages:
  "map_of (map (\<lambda>(key, b). (key, average b)) kvs) k = map_option average (map_of kvs k)"
  by (induction kvs) auto

text \<open>
  Claim C8. computeStats reports as count the number of records of the table as it is. A
  record whose price is missing, empty or white space only takes no part in the
  accumulation for the bedroom counts: the accumulation, and so the averages, are those
  of the table without these records, and the bucket of a key holds the sum of the prices
  and the number of the other records with that key.
\<close>

theorem computeStats_skips_blank_prices:
  "count (computeStats h) = length (data h)
   \<and> fold stats_step (data h) [] =
       fold stats_step (filter (\<lambda>listing. \<not> blank_price listing) (data h)) []
   \<and> avgPricePerBedroom (computeStats h) =
       avgPricePerBedroom
         (computeStats (AirBnBDataHandler (filter (\<lambda>listing. \<not> blank_price listing) (data h))))
   \<and> map_of (fold stats_step (data h) []) k =
       (if bucket_members k (data h) = [] then None
        else Some \<lparr>bucket_sum = foldl js_add (Fin 0) (map price_value (bucket_members k (data h))),
                   bucket_count = length (bucket_members k (data h))\<rparr>)"
proof (intro conjI)
  show "count (computeStats h) = length (data h)"
    by (simp add: computeStats_def)
  show skip: "fold stats_step (data h) [] =
       fold stats_step (filter (\<lambda>listing. \<not> blank_price listing) (data h)) []"
    by (rule fold_stats_step_filter)
  then show "avgPricePerBedroom (computeStats h) =
       avgPricePerBedroom
         (computeStats (AirBnBDataHandler (filter (\<lambda>listing. \<not> blank_price listing) (data h))))"
    by (simp add: computeStats_def)
  show "map_of (fold stats_step (data h) []) k =
       (if bucket_members k (data h) = [] then None
        else Some \<lparr>bucket_sum = foldl js_add (Fin 0) (map price_value (bucket_members k (data h))),
                   bucket_count = length (bucket_members k (data h))\<rparr>)"
    by (simp add: map_of_fold_stats_step bucket_after_def)
qed

lemma stats_example:
  "computeStats (AirBnBDataHandler [[(''price'', ''$100''), (''bedrooms'', ''1'')]])
     = \<lparr>count = 1, avgPricePerBedroom = [(Fin 1, Fin 100)]\<rparr>"
  by (simp add: stats_eval parse_eval)

lemma blank_example:
  "filter (\<lambda>listing. \<not> blank_price listing)
     [[(''price'', ''$100''), (''bedrooms'', ''1'')], [(''price'', []), (''bedrooms'', ''1'')],
      [(''price'', ''   ''), (''bedrooms'', ''1'')], [(''bedrooms'', ''1'')]]
   = [[(''price'', ''$100''), (''bedrooms'', ''1'')]]"
  by (simp add: blank_price_def field_def is_whitespace_def)

theorem computeStats_skips_blank_prices_witness:
  "count (computeStats (AirBnBDataHandler
     [[(''price'', ''$100''), (''bedrooms'', ''1'')], [(''price'', []), (''bedrooms'', ''1'')],
      [(''price'', ''   ''), (''bedrooms'', ''1'')], [(''bedrooms'', ''1'')]])) = 4
   \<and> avgPricePerBedroom (computeStats (AirBnBDataHandler
     [[(''price'', ''$100''), (''bedrooms'', ''1'')], [(''price'', []), (''bedrooms'', ''1'')],
      [(''price'', ''   ''), (''bedrooms'', ''1'')], [(''bedrooms'', ''1'')]])) = [(Fin 1, Fin 100)]"
proof -
  define d where "d = [[(''price'', ''$100''), (''bedrooms'', ''1'')], [(''price'', []), (''bedrooms'', ''1'')],
      [(''price'', ''   ''), (''bedrooms'', ''1'')], [(''bedrooms'', ''1'')]]"
  note inst = computeStats_skips_blank_prices [of "AirBnBDataHandler d" NaN]
  have "count (computeStats (AirBnBDataHandler d)) = length d"
    using inst by (simp only: data_AirBnBDataHandler)
  then have c: "count (computeStats (AirBnBDataHandler d)) = 4"
    by (simp add: d_def)
  have "avgPricePerBedroom (computeStats (AirBnBDataHandler d)) =
       avgPricePerBedroom
         (computeStats (AirBnBDataHandler (filter (\<lambda>listing. \<not> blank_price listing) d)))"
    using inst by (simp only: data_AirBnBDataHandler)
  also have "filter (\<lambda>listing. \<not> blank_price listing) d = [[(''price'', ''$100''), (''bedrooms'', ''1'')]]"
    unfolding d_def by (rule blank_example)
  finally have "avgPricePerBedroom (computeStats (AirBnBDataHandler d)) = [(Fin 1, Fin 100)]"
    by (simp only: stats_example stats.simps)
  with c show ?thesis
    unfolding d_def by (rule conjI)
qed

text \<open>
  Claim C10. A record whose price is not empty after trimming and has no digit is not left
  out of the accumulation: it is one of the records counted in the bucket of its bedroom
  count, the sum of that bucket is NaN, and the average reported for the bucket is NaN.
\<close>

theorem computeStats_counts_unparsable_price:
  assumes "listing \<in> set (data h)"
    and "field listing ''price'' = Some s"
    and "trim s \<noteq> []"
    and "\<forall>c \<in> set s. \<not> is_digit c"
  shows "listing \<in> set (bucket_members (bedroom_key listing) (data h))
    \<and> map_of (fold stats_step (data h) []) (bedroom_key listing) =
        Some \<lparr>bucket_sum = NaN,
              bucket_count = length (bucket_members (bedroom_key listing) (data h))\<rparr>
    \<and> map_of (avgPricePerBedroom (computeStats h)) (bedroom_key listing) = Some NaN"
proof -
  define k where "k = bedroom_key listing"
  define ms where "ms = bucket_members k (data h)"
  from assms(2,3) have "\<not> blank_price listing"
    by (simp add: blank_price_def trim_empty_iff)
  with assms(1) have member: "listing \<in> set ms"
    by (simp add: ms_def k_def bucket_members_def)
  then have ne: "ms \<noteq> []" by auto
  have "price_value listing = NaN"
    using assms(2,4) by (simp add: price_value_def ToString_def extractPrice_no_digit)
  with member have "NaN \<in> set (map price_value ms)"
    by force
  then have "foldl js_add (Fin 0) (map price_value ms) = NaN"
    by (rule foldl_js_add_NaN)
  with ne have bucket: "map_of (fold stats_step (data h) []) k =
      Some \<lparr>bucket_sum = NaN, bucket_count = length ms\<rparr>"
    by (simp add: map_of_fold_stats_step bucket_after_def ms_def)
  from ne have "0 < length ms" by simp
  then have "average \<lparr>bucket_sum = NaN, bucket_count = length ms\<rparr> = NaN"
    by (simp add: average_def)
  with bucket have "map_of (avgPricePerBedroom (computeStats h)) k = Some NaN"
    by (simp add: computeStats_def map_of_averages)
  with member bucket show ?thesis
    by (simp add: k_def ms_def)
qed

theorem computeStats_counts_unparsable_price_witness:
  "trim ''N/A'' \<noteq> []
   \<and> \<not> (\<exists>c \<in> set ''N/A''. is_digit c)
   \<and> map_of
       (fold stats_step
          [[(''price'', ''N/A''), (''bedrooms'', ''1'')], [(''price'', ''$100''), (''bedrooms'', ''1'')]] [])
       (Fin 1) = Some \<lparr>bucket_sum = NaN, bucket_count = 2\<rparr>
   \<and> map_of
       (avgPricePerBedroom
          (computeStats
             (AirBnBDataHandler
                [[(''price'', ''N/A''), (''bedrooms'', ''1'')], [(''price'', ''$100''), (''bedrooms'', ''1'')]])))
       (Fin 1) = Some NaN"
proof -
  define l where "l = [(''price'', ''N/A''), (''bedrooms'', ''1'')]"
  define d where "d = [l, [(''price'', ''$100''), (''bedrooms'', ''1'')]]"
  have a1: "l \<in> set (data (AirBnBDataHandler d))"
    by (simp add: d_def)
  have a2: "field l ''price'' = Some ''N/A''"
    by (simp add: l_def field_def)
  have a3: "trim ''N/A'' \<noteq> []"
    by (simp add: trim_def is_whitespace_def)
  have a4: "\<forall>c \<in> set ''N/A''. \<not> is_digit c"
    by (simp add: is_digit_def)
  note r = computeStats_counts_unparsable_price [OF a1 a2 a3 a4]
  have k: "bedroom_key l = Fin 1"
    by (simp add: bedroom_key_def l_def field_def parse_eval)
  have "bucket_members (Fin 1) d = d"
    by (simp add: bucket_members_def d_def l_def blank_price_def bedroom_key_def field_def
        is_whitespace_def parse_eval)
  then have m: "length (bucket_members (Fin 1) d) = 2"
    by (simp add: d_def)
  from r have "map_of (fold stats_step d []) (Fin 1) = Some \<lparr>bucket_sum = NaN, bucket_count = 2\<rparr>"
    and "map_of (avgPricePerBedroom (computeStats (AirBnBDataHandler d))) (Fin 1) = Some NaN"
    by (simp_all only: k m data_AirBnBDataHandler)
  with a3 a4 show ?thesis
    unfolding d_def l_def by blast
qed

section \<open>Properties of computeListingsPerHost\<close>

lemma digits_value_snoc: "digits_value (u @ [c]) = 10 * digits_value u + digit_val c"
  by (simp add: digits_value_def)

lemma digit_val_range: "is_digit c \<Longrightarrow> 0 \<le> digit_val c \<and> digit_val c \<le> 9"
  by (auto simp: is_digit_def digit_val_def)

lemma digit_val_zero: "is_digit c \<Longrightarrow> digit_val c = 0 \<Longrightarrow> c = CHR ''0''"
  by (auto simp: is_digit_def digit_val_def)

lemma digit_val_inj: "is_digit c \<Longrightarrow> is_digit d \<Longrightarrow> digit_val c = digit_val d \<Longrightarrow> c = d"
  by (auto simp: is_digit_def digit_val_def)

lemma plain_digits_butlast: "plain_digits (u @ [c]) \<Longrightarrow> plain_digits u \<and> is_digit c"
  by (cases u) (auto simp: plain_digits_def)

lemma plain_digits_all: "plain_digits u \<Longrightarrow> list_all is_digit u"
  by (simp add: plain_digits_def)

lemma all_digits_nonneg: "list_all is_digit u \<Longrightarrow> 0 \<le> digits_value u"
  unfolding digits_value_def by (rule foldl_digits_nonneg) simp_all

lemma plain_digits_positive: "plain_digits u \<Longrightarrow> u \<noteq> [] \<Longrightarrow> 0 < digits_value u"
proof (induction u rule: rev_induct)
  case Nil
  then show ?case by simp
next
  case (snoc c u)
  from snoc.prems(1) have pu: "plain_digits u" and dc: "is_digit c"
    using plain_digits_butlast by blast+
  show ?case
  proof (cases "u = []")
    case True
    with snoc.prems(1) have "c \<noteq> CHR ''0''" by (simp add: plain_digits_def)
    with dc have "digit_val c \<noteq> 0" using digit_val_zero by blast
    with digit_val_range [OF dc] have "0 < digit_val c" by simp
    with True show ?thesis by (simp add: digits_value_def)
  next
    case False
    with snoc.IH pu have "0 < digits_value u" by simp
    with digit_val_range [OF dc] show ?thesis by (simp add: digits_value_snoc)
  qed
qed

lemma plain_digits_inj:
  "plain_digits u \<Longrightarrow> plain_digits v \<Longrightarrow> digits_value u = digits_value v \<Longrightarrow> u = v"
proof (induction u arbitrary: v rule: rev_induct)
  case Nil
  show ?case
  proof (rule ccontr)
    assume "[] \<noteq> v"
    with Nil.prems(2) have "0 < digits_value v" by (intro plain_digits_positive) simp_all
    with Nil.prems(3) show False by (simp add: digits_value_def)
  qed
next
  case (snoc c u)
  from snoc.prems(1) have pu: "plain_digits u" and dc: "is_digit c"
    using plain_digits_butlast by blast+
  have "0 < digits_value (u @ [c])"
    using snoc.prems(1) by (intro plain_digits_positive) simp_all
  with snoc.prems(3) have "v \<noteq> []" by (auto simp: digits_value_def)
  then obtain w d where v: "v = w @ [d]" by (metis rev_exhaust)
  from snoc.prems(2) have pw: "plain_digits w" and dd: "is_digit d"
    unfolding v using plain_digits_butlast by blast+
  from snoc.prems(3) have eq: "10 * digits_value u + digit_val c = 10 * digits_value w + digit_val d"
    by (simp add: v digits_value_snoc)
  with digit_val_range [OF dc] digit_val_range [OF dd]
  have "digit_val c = digit_val d" and "digits_value u = digits_value w"
    by presburger+
  with dc dd pu pw snoc.IH have "c = d" and "u = w"
    using digit_val_inj by blast+
  then show ?case by (simp add: v)
qed

lemma array_index_inj:
  assumes "array_index k = Some i" and "array_index k' = Some i"
  shows "k = k'"
proof -
  have canon: "list_all is_digit s \<and> s \<noteq> [] \<and> (hd s \<noteq> CHR ''0'' \<or> s = ''0'') \<and> digits_value s = i"
    if "array_index s = Some i" for s
    using that by (simp add: array_index_def split: if_splits)
  have zero: "s = ''0''" if "array_index s = Some i" "i = 0" for s
  proof (rule ccontr)
    assume "s \<noteq> ''0''"
    with canon [OF that(1)] have "plain_digits s" "s \<noteq> []" by (simp_all add: plain_digits_def)
    then have "0 < digits_value s" by (rule plain_digits_positive)
    with canon [OF that(1)] that(2) show False by simp
  qed
  have plain: "plain_digits s" if "array_index s = Some i" "i \<noteq> 0" for s
  proof -
    have "digits_value ''0'' = 0" by (simp add: digits_value_def digit_val_def)
    with canon [OF that(1)] that(2) have "s \<noteq> ''0''" by auto
    with canon [OF that(1)] show ?thesis by (simp add: plain_digits_def)
  qed
  show ?thesis
  proof (cases "i = 0")
    case True
    with assms zero have "k = ''0''" and "k' = ''0''" by blast+
    then show ?thesis by simp
  next
    case False
    with assms plain have "plain_digits k" "plain_digits k'" by simp_all
    moreover from assms canon have "digits_value k = digits_value k'" by simp
    ultimately show ?thesis by (rule plain_digits_inj)
  qed
qed

lemma first_seen_snoc:
  "first_seen (ks @ [k]) = (if k \<in> set ks then first_seen ks else first_seen ks @ [k])"
  by (simp add: first_seen_def)

lemma set_first_seen [simp]: "set (first_seen ks) = set ks"
  by (simp add: first_seen_def)

lemma distinct_first_seen [simp]: "distinct (first_seen ks)"
  by (simp add: first_seen_def)

lemma set_property_order [simp]: "set (property_order ks) = set ks"
  by (auto simp: property_order_def)

lemma distinct_property_order [simp]: "distinct (property_order ks)"
  by (auto simp: property_order_def)

lemma insort_key_takeWhile:
  "insort_key f x xs = takeWhile (\<lambda>y. f y < f x) xs @ x # dropWhile (\<lambda>y. f y < f x) xs"
  by (induction xs) auto

lemma sort_key_snoc:
  "f k \<notin> f ` set xs \<Longrightarrow> sort_key f (xs @ [k]) = insort_key f k (sort_key f xs)"
proof (induction xs)
  case Nil
  show ?case by simp
next
  case (Cons x xs)
  then have "f k \<noteq> f x" by auto
  then have "insort_key f x (insort_key f k (sort_key f xs)) =
      insort_key f k (insort_key f x (sort_key f xs))"
    by (rule insort_key_left_comm)
  with Cons show ?case by simp
qed

lemma property_order_old: "k \<in> set ks \<Longrightarrow> property_order (ks @ [k]) = property_order ks"
  by (simp add: property_order_def first_seen_snoc)

lemma property_order_new_name:
  "k \<notin> set ks \<Longrightarrow> array_index k = None \<Longrightarrow> property_order (ks @ [k]) = property_order ks @ [k]"
  by (simp add: property_order_def first_seen_snoc)

lemma property_order_new_index:
  assumes "k \<notin> set ks" and "array_index k = Some i"
  shows "property_order (ks @ [k]) =
    takeWhile (before_index i) (property_order ks) @ k # dropWhile (before_index i) (property_order ks)"
proof -
  define idx where "idx = filter (\<lambda>k. array_index k \<noteq> None) (first_seen ks)"
  define oth where "oth = filter (\<lambda>k. array_index k = None) (first_seen ks)"
  define srt where "srt = sort_key index_value idx"
  have po: "property_order ks = srt @ oth"
    by (simp add: property_order_def srt_def idx_def oth_def)
  have "index_value k \<notin> index_value ` set idx"
  proof
    assume "index_value k \<in> index_value ` set idx"
    then obtain k' where k': "k' \<in> set idx" "index_value k = index_value k'" by blast
    then obtain j where "array_index k' = Some j" by (auto simp: idx_def)
    with k'(2) assms(2) have "array_index k' = Some i" by (simp add: index_value_def)
    with assms(2) have "k = k'" by (rule array_index_inj)
    with k'(1) assms(1) show False by (simp add: idx_def)
  qed
  then have "sort_key index_value (idx @ [k]) = insort_key index_value k srt"
    unfolding srt_def by (rule sort_key_snoc)
  then have new: "property_order (ks @ [k]) = insort_key index_value k srt @ oth"
    using assms by (simp add: property_order_def first_seen_snoc idx_def oth_def)
  have on_srt: "before_index i k' = (index_value k' < index_value k)" if "k' \<in> set srt" for k'
  proof -
    from that have "k' \<in> set idx" by (simp add: srt_def)
    then obtain j where "array_index k' = Some j" by (auto simp: idx_def)
    with assms(2) show ?thesis by (simp add: before_index_def index_value_def)
  qed
  have on_oth: "\<not> before_index i k'" if "k' \<in> set oth" for k'
    using that by (simp add: oth_def before_index_def)
  have tw_oth: "takeWhile (before_index i) oth = []"
    using on_oth by (cases oth) simp_all
  have dw_oth: "dropWhile (before_index i) oth = oth"
    using on_oth by (cases oth) simp_all
  have both: "takeWhile (before_index i) (srt @ oth) = takeWhile (before_index i) srt
      \<and> dropWhile (before_index i) (srt @ oth) = dropWhile (before_index i) srt @ oth"
  proof (cases "\<forall>x \<in> set srt. before_index i x")
    case True
    then have t1: "takeWhile (before_index i) (srt @ oth) = srt @ takeWhile (before_index i) oth"
      by (intro takeWhile_append2) simp
    from True have t2: "dropWhile (before_index i) (srt @ oth) = dropWhile (before_index i) oth"
      by (intro dropWhile_append2) simp
    from True have t3: "takeWhile (before_index i) srt = srt"
      by (simp only: takeWhile_eq_all_conv)
    from True have t4: "dropWhile (before_index i) srt = []"
      by (simp only: dropWhile_eq_Nil_conv)
    from t1 t2 t3 t4 have "takeWhile (before_index i) (srt @ oth) = takeWhile (before_index i) srt
      \<and> dropWhile (before_index i) (srt @ oth) = dropWhile (before_index i) srt @ oth"
      by (simp only: tw_oth dw_oth append_Nil append_Nil2 simp_thms)
    then show ?thesis .
  next
    case False
    then obtain x where "x \<in> set srt" "\<not> before_index i x" by blast
    then show ?thesis
      by (simp add: takeWhile_append1 dropWhile_append1)
  qed
  have tw: "takeWhile (before_index i) (srt @ oth) = takeWhile (\<lambda>y. index_value y < index_value k) srt"
  proof -
    have "takeWhile (before_index i) srt = takeWhile (\<lambda>y. index_value y < index_value k) srt"
      by (rule takeWhile_cong) (simp_all add: on_srt)
    with both show ?thesis by simp
  qed
  have dw: "dropWhile (before_index i) (srt @ oth) = dropWhile (\<lambda>y. index_value y < index_value k) srt @ oth"
  proof -
    have "dropWhile (before_index i) srt = dropWhile (\<lambda>y. index_value y < index_value k) srt"
      by (rule dropWhile_cong) (simp_all add: on_srt)
    with both show ?thesis by simp
  qed
  show ?thesis
    by (simp only: new po tw dw insort_key_takeWhile) simp
qed


lemma obj_update_map:
  "distinct xs \<Longrightarrow> k \<in> set xs \<Longrightarrow>
   obj_update (map (\<lambda>x. (x, f x)) xs) k v = map (\<lambda>x. (x, if x = k then v else f x)) xs"
  by (induction xs) auto

lemma map_of_map_keys:
  "map_of (map (\<lambda>x. (x, f x)) xs) k = (if k \<in> set xs then Some (f k) else None)"
  by (induction xs) auto

lemma host_step_old:
  assumes "host_key l \<in> set (map host_key d)"
  shows "host_step l (host_counts d) = host_counts (d @ [l])"
proof -
  define k where "k = host_key l"
  define ks where "ks = map host_key d"
  define po where "po = property_order ks"
  from assms have mem: "k \<in> set ks" by (simp add: k_def ks_def)
  then have look: "map_of (map (\<lambda>x. (x, count_list ks x)) po) k = Some (count_list ks k)"
    by (simp add: map_of_map_keys po_def)
  have "host_step l (host_counts d) =
      obj_put array_index (map (\<lambda>x. (x, count_list ks x)) po) k
        ((case map_of (map (\<lambda>x. (x, count_list ks x)) po) k of None \<Rightarrow> 0 | Some n \<Rightarrow> n) + 1)"
    by (simp only: host_step_def host_counts_def Let_def k_def ks_def po_def)
  also have "\<dots> = obj_update (map (\<lambda>x. (x, count_list ks x)) po) k (count_list ks k + 1)"
    by (simp only: obj_put_def look) simp
  also have "\<dots> = map (\<lambda>x. (x, if x = k then count_list ks k + 1 else count_list ks x)) po"
    using mem by (intro obj_update_map) (simp_all add: po_def)
  also have "\<dots> = map (\<lambda>x. (x, count_list (ks @ [k]) x)) po"
    by (rule map_cong) auto
  also have "\<dots> = map (\<lambda>x. (x, count_list (ks @ [k]) x)) (property_order (ks @ [k]))"
    using mem by (simp only: property_order_old po_def)
  also have "\<dots> = host_counts (d @ [l])"
    by (simp only: host_counts_def k_def ks_def map_append list.map)
  finally show ?thesis .
qed

lemma host_step_new:
  assumes "host_key l \<notin> set (map host_key d)"
  shows "host_step l (host_counts d) = host_counts (d @ [l])"
proof -
  define k where "k = host_key l"
  define ks where "ks = map host_key d"
  define po where "po = property_order ks"
  define g where "g = (\<lambda>x. (x, count_list ks x))"
  define g' where "g' = (\<lambda>x. (x, count_list (ks @ [k]) x))"
  from assms have new: "k \<notin> set ks" by (simp add: k_def ks_def)
  then have look: "map_of (map g po) k = None"
    by (simp add: map_of_map_keys po_def g_def)
  have zero: "count_list ks k = 0"
    using new by (simp add: count_list_0_iff)
  have old: "map g' xs = map g xs" if "k \<notin> set xs" for xs
  proof (rule map_cong)
    fix x assume "x \<in> set xs"
    with that have "x \<noteq> k" by blast
    then show "g' x = g x" by (simp add: g_def g'_def)
  qed (rule refl)
  have fresh: "k \<notin> set po"
    using new by (simp add: po_def)
  have gk: "g' k = (k, 1)"
    by (simp add: g'_def zero)
  have "host_step l (host_counts d) =
      obj_put array_index (map g po) k
        ((case map_of (map g po) k of None \<Rightarrow> 0 | Some n \<Rightarrow> n) + 1)"
    by (simp only: host_step_def host_counts_def Let_def k_def ks_def po_def g_def)
  then have step: "host_step l (host_counts d) = obj_create array_index (map g po) k 1"
    by (simp only: obj_put_def look) simp
  have goal: "host_counts (d @ [l]) = map g' (property_order (ks @ [k]))"
    by (simp only: host_counts_def k_def ks_def g'_def map_append list.map)
  show ?thesis
  proof (cases "array_index k")
    case None
    then have "obj_create array_index (map g po) k 1 = map g po @ [(k, 1)]"
      by (simp add: obj_create_def)
    also have "\<dots> = map g' (po @ [k])"
      by (simp add: gk old [OF fresh])
    also have "\<dots> = map g' (property_order (ks @ [k]))"
      using new None by (simp add: property_order_new_name po_def)
    finally show ?thesis by (simp only: step goal)
  next
    case (Some i)
    have "index_below array_index i \<circ> g = before_index i"
      by (simp add: fun_eq_iff index_below_def before_index_def g_def)
    then have tw: "takeWhile (index_below array_index i) (map g po) = map g (takeWhile (before_index i) po)"
      and dw: "dropWhile (index_below array_index i) (map g po) = map g (dropWhile (before_index i) po)"
      by (simp_all add: takeWhile_map dropWhile_map)
    have "k \<notin> set (takeWhile (before_index i) po)"
      using fresh set_takeWhileD [of k "before_index i" po] by blast
    then have m1: "map g (takeWhile (before_index i) po) = map g' (takeWhile (before_index i) po)"
      by (rule old [symmetric])
    have "k \<notin> set (dropWhile (before_index i) po)"
      using fresh set_dropWhileD [of k "before_index i" po] by blast
    then have m2: "map g (dropWhile (before_index i) po) = map g' (dropWhile (before_index i) po)"
      by (rule old [symmetric])
    note m1 m2
    with Some have "obj_create array_index (map g po) k 1 =
        map g' (takeWhile (before_index i) po @ k # dropWhile (before_index i) po)"
      by (simp add: obj_create_def tw dw gk)
    also have "\<dots> = map g' (property_order (ks @ [k]))"
      using new Some by (simp add: property_order_new_index po_def)
    finally show ?thesis by (simp only: step goal)
  qed
qed

lemma fold_host_step: "fold host_step d [] = host_counts d"
proof (induction d rule: rev_induct)
  case Nil
  show ?case by (simp add: host_counts_def property_order_def first_seen_def)
next
  case (snoc l d)
  then have "fold host_step (d @ [l]) [] = host_step l (host_counts d)" by simp
  also have "\<dots> = host_counts (d @ [l])"
  proof (cases "host_key l \<in> set (map host_key d)")
    case True
    then show ?thesis by (rule host_step_old)
  next
    case False
    then show ?thesis by (rule host_step_new)
  qed
  finally show ?case .
qed


lemmas hosts_eval =
  computeListingsPerHost_def host_step_def host_key_def obj_put_def obj_create_def array_index_def
  index_below_def object_prototype_names_def field_def ToString_def digits_value_def digit_val_def
  is_digit_def Let_def

lemma property_order_names:
  assumes "\<forall>k \<in> set ks. array_index k = None"
  shows "property_order ks = first_seen ks"
proof -
  from assms have "filter (\<lambda>k. array_index k \<noteq> None) (first_seen ks) = []"
    and "filter (\<lambda>k. array_index k = None) (first_seen ks) = first_seen ks"
    by (simp_all add: filter_empty_conv filter_id_conv)
  then show ?thesis by (simp add: property_order_def)
qed

text \<open>
  Claim C2, amended. When no host_id is a name that every object inherits,
  computeListingsPerHost returns the pairs of a host_id and the number of its records,
  sorted by a stable sort with larger counts first. Hosts with equal counts keep the
  order in which the accumulator object enumerates its keys: the host_ids that are array
  indices first, in ascending numeric order, then the other host_ids in the order of
  their first appearance. When no host_id is an array index this is the order of first
  appearance.
\<close>

theorem computeListingsPerHost_ranking:
  assumes "\<forall>listing \<in> set (data h). host_key listing \<notin> set object_prototype_names"
  shows "computeListingsPerHost h =
           Inr (sort_key (\<lambda>entry. - int (snd entry)) (host_counts (data h)))
    \<and> sorted_wrt (\<lambda>a b. snd b \<le> snd a)
         (sort_key (\<lambda>entry. - int (snd entry)) (host_counts (data h)))
    \<and> filter (\<lambda>entry. snd entry = c)
         (sort_key (\<lambda>entry. - int (snd entry)) (host_counts (data h))) =
       filter (\<lambda>entry. snd entry = c) (host_counts (data h))
    \<and> ((\<forall>listing \<in> set (data h). array_index (host_key listing) = None) \<longrightarrow>
         host_counts (data h) =
           map (\<lambda>k. (k, count_list (map host_key (data h)) k))
             (first_seen (map host_key (data h))))"
proof (intro conjI impI)
  let ?f = "\<lambda>entry :: string \<times> nat. - int (snd entry)"
  from assms show "computeListingsPerHost h = Inr (sort_key ?f (host_counts (data h)))"
    by (simp add: computeListingsPerHost_def fold_host_step)
  have "sorted (map ?f (sort_key ?f (host_counts (data h))))"
    by (rule sorted_sort_key)
  then show "sorted_wrt (\<lambda>a b. snd b \<le> snd a) (sort_key ?f (host_counts (data h)))"
    by (simp add: sorted_map)
  have "filter (\<lambda>y. ?f y = - int c) (sort_key ?f (host_counts (data h))) =
      filter (\<lambda>y. ?f y = - int c) (host_counts (data h))"
    by (rule sort_key_stable)
  then show "filter (\<lambda>entry. snd entry = c) (sort_key ?f (host_counts (data h))) =
       filter (\<lambda>entry. snd entry = c) (host_counts (data h))"
    by simp
next
  assume "\<forall>listing \<in> set (data h). array_index (host_key listing) = None"
  then have "property_order (map host_key (data h)) = first_seen (map host_key (data h))"
    by (intro property_order_names) simp
  then show "host_counts (data h) =
           map (\<lambda>k. (k, count_list (map host_key (data h)) k))
             (first_seen (map host_key (data h)))"
    by (simp add: host_counts_def)
qed

lemma ranking_example:
  "computeListingsPerHost
     (AirBnBDataHandler
        [[(''host_id'', ''b'')], [(''host_id'', ''2'')], [(''host_id'', ''a'')],
         [(''host_id'', ''10'')], [(''host_id'', ''01'')], [(''host_id'', ''a'')], []])
   = Inr [(''a'', 2), (''2'', 1), (''10'', 1), (''b'', 1), (''01'', 1), (''undefined'', 1)]"
  by (simp add: hosts_eval)

text \<open>
  The hosts 2 and 1 have one listing each and 2 appears first, yet 1 comes first in the
  result.
\<close>

theorem computeListingsPerHost_numeric_counterexample:
  "computeListingsPerHost (AirBnBDataHandler [[(''host_id'', ''2'')], [(''host_id'', ''1'')]])
     = Inr [(''1'', 1), (''2'', 1)]
   \<and> first_seen (map host_key [[(''host_id'', ''2'')], [(''host_id'', ''1'')]]) = [''2'', ''1'']"
  by (simp add: hosts_eval first_seen_def)

theorem computeListingsPerHost_ranking_witness:
  "sort_key (\<lambda>entry. - int (snd entry))
     (host_counts
        [[(''host_id'', ''b'')], [(''host_id'', ''2'')], [(''host_id'', ''a'')],
         [(''host_id'', ''10'')], [(''host_id'', ''01'')], [(''host_id'', ''a'')], []])
   = [(''a'', 2), (''2'', 1), (''10'', 1), (''b'', 1), (''01'', 1), (''undefined'', 1)]"
proof -
  define d :: "listing list" where "d =
        [[(''host_id'', ''b'')], [(''host_id'', ''2'')], [(''host_id'', ''a'')],
         [(''host_id'', ''10'')], [(''host_id'', ''01'')], [(''host_id'', ''a'')], []]"
  have own: "\<forall>listing \<in> set (data (AirBnBDataHandler d)). host_key listing \<notin> set object_prototype_names"
    by (simp add: d_def host_key_def field_def ToString_def object_prototype_names_def)
  from computeListingsPerHost_ranking [OF own, THEN conjunct1]
  have "computeListingsPerHost (AirBnBDataHandler d) =
      Inr (sort_key (\<lambda>entry. - int (snd entry)) (host_counts d))"
    by (simp only: data_AirBnBDataHandler)
  with ranking_example [folded d_def]
  have "sort_key (\<lambda>entry. - int (snd entry)) (host_counts d) =
      [(''a'', 2), (''2'', 1), (''10'', 1), (''b'', 1), (''01'', 1), (''undefined'', 1)]"
    by (simp only: sum.inject)
  then show ?thesis by (simp only: d_def)
qed

section \<open>Properties of filter in the store\<close>

lemma grows_refl: "valid st \<Longrightarrow> grows st st"
  by (simp add: grows_def)

lemma grows_trans: "grows a b \<Longrightarrow> grows b c \<Longrightarrow> grows a c"
  by (auto simp: grows_def)

lemma grows_new_array: "grows st (new_array ys (snd st))"
  by (simp add: grows_def valid_def new_array_def)

lemma content_new_array: "content (new_array ys s) = ys"
  by (simp add: content_def new_array_def)

lemma and_then_Inl [simp]: "and_then (Inl e, s) f = (Inl e, s)"
  by (simp add: and_then_def)

lemma and_then_Inr [simp]: "and_then (Inr a, s) f = f a s"
  by (simp add: and_then_def)

lemma filter_into_store:
  assumes "a < length (arrays s)"
  shows "\<exists>r s'. filter_into callback xs a s = (r, s')
           \<and> objects s' = objects s \<and> length (arrays s') = length (arrays s)
           \<and> (\<forall>i. i \<noteq> a \<longrightarrow> arrays s' ! i = arrays s ! i)
           \<and> (case filter_array callback xs of
                 Inl e \<Rightarrow> r = Inl TypeError
               | Inr ys \<Rightarrow> r = Inr a \<and> arrays s' ! a = arrays s ! a @ ys)"
  using assms
proof (induction xs arbitrary: s)
  case Nil
  then show ?case by simp
next
  case (Cons x xs)
  show ?case
  proof (cases "callback x")
    case (Inl e)
    then show ?thesis by (simp add: error_TypeError [of e])
  next
    case (Inr selected)
    define s1 where "s1 = (if selected then push a x s else s)"
    have len: "length (arrays s1) = length (arrays s)" and obj: "objects s1 = objects s"
      and other: "\<forall>i. i \<noteq> a \<longrightarrow> arrays s1 ! i = arrays s ! i"
      and built: "arrays s1 ! a = arrays s ! a @ (if selected then [x] else [])"
      using Cons.prems by (simp_all add: s1_def push_def)
    from len Cons.prems have "a < length (arrays s1)" by simp
    from Cons.IH [OF this] obtain r s' where step: "filter_into callback xs a s1 = (r, s')"
      "objects s' = objects s1" "length (arrays s') = length (arrays s1)"
      "\<forall>i. i \<noteq> a \<longrightarrow> arrays s' ! i = arrays s1 ! i"
      "case filter_array callback xs of
         Inl e \<Rightarrow> r = Inl TypeError
       | Inr ys \<Rightarrow> r = Inr a \<and> arrays s' ! a = arrays s1 ! a @ ys"
      by blast
    have "filter_into callback (x # xs) a s = (r, s')"
      using Inr step(1) by (simp add: s1_def)
    moreover have "case filter_array callback (x # xs) of
         Inl e \<Rightarrow> r = Inl TypeError
       | Inr ys \<Rightarrow> r = Inr a \<and> arrays s' ! a = arrays s ! a @ ys"
      using step(5) Inr built by (cases "filter_array callback xs") simp_all
    ultimately show ?thesis
      using step(2,3,4) len obj other by simp
  qed
qed

lemma prefix_same_length:
  assumes "length ys = Suc (length xs)" and "\<forall>i < length xs. ys ! i = xs ! i"
  shows "ys = xs @ [ys ! length xs]"
  using assms by (intro nth_equalityI) (auto simp: nth_append less_Suc_eq)

lemma array_filter_store:
  assumes "valid (filteredData, s)"
  shows "\<exists>r s'. array_filter test criterion filteredData s = (r, s')
           \<and> objects s' = objects s \<and> prefix (arrays s) (arrays s')
           \<and> (case criterion of
                 None \<Rightarrow> r = Inr filteredData
               | Some c \<Rightarrow>
                   (case filter_array (test c) (content (filteredData, s)) of
                      Inl e \<Rightarrow> r = Inl TypeError
                    | Inr ys \<Rightarrow> (\<exists>a. r = Inr a \<and> valid (a, s') \<and> content (a, s') = ys)))"
proof (cases criterion)
  case None
  then show ?thesis by (simp add: array_filter_def)
next
  case (Some c)
  define n where "n = length (arrays s)"
  define s1 where "s1 = s\<lparr>arrays := arrays s @ [[]]\<rparr>"
  have "n < length (arrays s1)" by (simp add: s1_def n_def)
  from filter_into_store [OF this, of "test c" "arrays s ! filteredData"]
  obtain r s' where step: "filter_into (test c) (arrays s ! filteredData) n s1 = (r, s')"
    "objects s' = objects s1" "length (arrays s') = length (arrays s1)"
    "\<forall>i. i \<noteq> n \<longrightarrow> arrays s' ! i = arrays s1 ! i"
    "case filter_array (test c) (arrays s ! filteredData) of
       Inl e \<Rightarrow> r = Inl TypeError
     | Inr ys \<Rightarrow> r = Inr n \<and> arrays s' ! n = arrays s1 ! n @ ys"
    by blast
  have run: "array_filter test criterion filteredData s = (r, s')"
    using step(1) by (simp add: array_filter_def Some new_array_def n_def s1_def)
  have "arrays s' = arrays s @ [arrays s' ! length (arrays s)]"
    using step(3,4) by (intro prefix_same_length) (simp_all add: s1_def n_def nth_append)
  then have pre: "prefix (arrays s) (arrays s')"
    by (metis prefixI)
  have res: "case filter_array (test c) (content (filteredData, s)) of
                      Inl e \<Rightarrow> r = Inl TypeError
                    | Inr ys \<Rightarrow> (\<exists>a. r = Inr a \<and> valid (a, s') \<and> content (a, s') = ys)"
    using step(3,5)
    by (cases "filter_array (test c) (arrays s ! filteredData)")
      (simp_all add: content_def valid_def s1_def n_def)
  from run step(2) pre res show ?thesis
    by (simp add: Some s1_def)
qed

lemma array_filter_total:
  assumes "valid (filteredData, s)"
  shows "\<exists>a s'. array_filter (\<lambda>c listing. Inr (q c listing)) criterion filteredData s = (Inr a, s')
    \<and> grows (filteredData, s) (a, s')
    \<and> content (a, s') =
        (case criterion of
           None \<Rightarrow> content (filteredData, s)
         | Some c \<Rightarrow> filter (q c) (content (filteredData, s)))"
proof -
  from array_filter_store [OF assms, of "\<lambda>c listing. Inr (q c listing)" criterion]
  obtain r s' where run: "array_filter (\<lambda>c listing. Inr (q c listing)) criterion filteredData s = (r, s')"
    and obj: "objects s' = objects s" and pre: "prefix (arrays s) (arrays s')"
    and res: "case criterion of
                 None \<Rightarrow> r = Inr filteredData
               | Some c \<Rightarrow>
                   (case filter_array (\<lambda>listing. Inr (q c listing)) (content (filteredData, s)) of
                      Inl e \<Rightarrow> r = Inl TypeError
                    | Inr ys \<Rightarrow> (\<exists>a. r = Inr a \<and> valid (a, s') \<and> content (a, s') = ys))"
    by blast
  show ?thesis
  proof (cases criterion)
    case None
    with assms show ?thesis
      by (simp add: array_filter_def grows_refl)
  next
    case (Some c)
    have "filter_array (\<lambda>listing. Inr (q c listing)) (content (filteredData, s))
        = Inr (filter (q c) (content (filteredData, s)))"
      by (rule filter_array_Inr) simp
    with res Some obtain a where "r = Inr a" "valid (a, s')"
      "content (a, s') = filter (q c) (content (filteredData, s))"
      by auto
    with run obj pre Some show ?thesis
      by (simp add: grows_def)
  qed
qed

lemma array_filter_price:
  assumes "valid (filteredData, s)"
  shows "(price_throws c (content (filteredData, s)) \<longrightarrow>
        (\<exists>s'. array_filter (\<lambda>p listing. call_on (field listing ''price'') (\<lambda>v. js_le (extractPrice v) p))
          (price c) filteredData s = (Inl TypeError, s')
          \<and> objects s' = objects s \<and> prefix (arrays s) (arrays s')))
    \<and> (\<not> price_throws c (content (filteredData, s)) \<longrightarrow>
        (\<exists>a s'. array_filter (\<lambda>p listing. call_on (field listing ''price'') (\<lambda>v. js_le (extractPrice v) p))
          (price c) filteredData s = (Inr a, s') \<and> grows (filteredData, s) (a, s')
          \<and> content (a, s') = filter (meets_price (price c)) (content (filteredData, s))))"
proof -
  let ?test = "\<lambda>p listing. call_on (field listing ''price'') (\<lambda>v. js_le (extractPrice v) p)"
  from array_filter_store [OF assms, of ?test "price c"]
  obtain r s' where run: "array_filter ?test (price c) filteredData s = (r, s')"
    and obj: "objects s' = objects s" and pre: "prefix (arrays s) (arrays s')"
    and res: "case price c of
                 None \<Rightarrow> r = Inr filteredData
               | Some p \<Rightarrow>
                   (case filter_array (?test p) (content (filteredData, s)) of
                      Inl e \<Rightarrow> r = Inl TypeError
                    | Inr ys \<Rightarrow> (\<exists>a. r = Inr a \<and> valid (a, s') \<and> content (a, s') = ys))"
    by blast
  show ?thesis
  proof (cases "price c")
    case None
    with assms show ?thesis
      by (simp add: array_filter_def grows_refl price_throws_def meets_price_def)
  next
    case (Some p)
    show ?thesis
    proof (cases "price_throws c (content (filteredData, s))")
      case True
      with Some res have "r = Inl TypeError"
        by (simp add: price_pass price_throws_def)
      with run obj pre True show ?thesis by simp
    next
      case False
      with Some have "filter_array (?test p) (content (filteredData, s))
          = Inr (filter (meets_price (Some p)) (content (filteredData, s)))"
        by (simp add: price_pass price_throws_def)
      with Some res obtain a where "r = Inr a" "valid (a, s')"
        "content (a, s') = filter (meets_price (Some p)) (content (filteredData, s))"
        by auto
      with run obj pre False Some show ?thesis
        by (simp add: grows_def)
    qed
  qed
qed

lemma filter_method_throws:
  assumes "price_throws c (data_of s this)" and "objects s ! this < length (arrays s)"
  shows "\<exists>s'. filter_method s this c = (Inl TypeError, s')
           \<and> objects s' = objects s \<and> prefix (arrays s) (arrays s')"
proof -
  have "valid (objects s ! this, s)" using assms(2) by (simp add: valid_def)
  moreover have "content (objects s ! this, s) = data_of s this"
    by (simp add: content_def data_of_def)
  ultimately obtain s' where
    "array_filter (\<lambda>p listing. call_on (field listing ''price'') (\<lambda>v. js_le (extractPrice v) p))
          (price c) (objects s ! this) s = (Inl TypeError, s')"
    "objects s' = objects s" "prefix (arrays s) (arrays s')"
    using array_filter_price [of "objects s ! this" s c] assms(1) by auto
  then show ?thesis by (simp add: filter_method_def)
qed

lemma filter_method_returns:
  assumes "\<not> price_throws c (data_of s this)"
    and "this < length (objects s)" and "objects s ! this < length (arrays s)"
  shows "\<exists>s'. filter_method s this c = (Inr (length (objects s)), s')
           \<and> objects s' = objects s @ [objects s' ! length (objects s)]
           \<and> prefix (arrays s) (arrays s')
           \<and> data_of s' (length (objects s)) = filter (meets c) (data_of s this)"
proof -
  define d0 where "d0 = objects s ! this"
  have v0: "valid (d0, s)" using assms(3) by (simp add: valid_def d0_def)
  have c0: "content (d0, s) = data_of s this"
    by (simp add: content_def data_of_def d0_def)
  from array_filter_price [OF v0, of c] assms(1) c0
  obtain d1 s1 where r1: "array_filter (\<lambda>p listing. call_on (field listing ''price'') (\<lambda>v. js_le (extractPrice v) p))
          (price c) d0 s = (Inr d1, s1)"
    and g1: "grows (d0, s) (d1, s1)"
    and c1: "content (d1, s1) = filter (meets_price (price c)) (content (d0, s))"
    by auto
  from g1 have v1: "valid (d1, s1)" by (simp add: grows_def)
  from array_filter_total [OF v1, where q = "\<lambda>rt listing. field listing ''room_type'' = Some rt"
      and criterion = "case room_type c of None \<Rightarrow> None | Some rt \<Rightarrow> if rt = [] then None else Some rt"]
  obtain d2 s2 where r2: "array_filter (\<lambda>rt listing. Inr (field listing ''room_type'' = Some rt))
          (case room_type c of None \<Rightarrow> None | Some rt \<Rightarrow> if rt = [] then None else Some rt) d1 s1
          = (Inr d2, s2)"
    and g2: "grows (d1, s1) (d2, s2)"
    and c2: "content (d2, s2) =
      (case (case room_type c of None \<Rightarrow> None | Some rt \<Rightarrow> if rt = [] then None else Some rt) of
         None \<Rightarrow> content (d1, s1)
       | Some rt \<Rightarrow> filter (\<lambda>listing. field listing ''room_type'' = Some rt) (content (d1, s1)))"
    by blast
  from g2 have v2: "valid (d2, s2)" by (simp add: grows_def)
  from array_filter_total [OF v2,
      where q = "\<lambda>b listing. js_strict_eq (parseInt (ToString (field listing ''bedrooms''))) b"
      and criterion = "bedrooms c"]
  obtain d3 s3 where r3: "array_filter
          (\<lambda>b listing. Inr (js_strict_eq (parseInt (ToString (field listing ''bedrooms''))) b))
          (bedrooms c) d2 s2 = (Inr d3, s3)"
    and g3: "grows (d2, s2) (d3, s3)"
    and c3: "content (d3, s3) =
      (case bedrooms c of
         None \<Rightarrow> content (d2, s2)
       | Some b \<Rightarrow> filter (\<lambda>listing. js_strict_eq (parseInt (ToString (field listing ''bedrooms''))) b)
                    (content (d2, s2)))"
    by blast
  from g3 have v3: "valid (d3, s3)" by (simp add: grows_def)
  from array_filter_total [OF v3,
      where q = "\<lambda>m listing. js_ge (parseFloat (ToString (field listing ''review_scores_rating''))) m"
      and criterion = "review_scores_rating c"]
  obtain d4 s4 where r4: "array_filter
          (\<lambda>m listing. Inr (js_ge (parseFloat (ToString (field listing ''review_scores_rating''))) m))
          (review_scores_rating c) d3 s3 = (Inr d4, s4)"
    and g4: "grows (d3, s3) (d4, s4)"
    and c4: "content (d4, s4) =
      (case review_scores_rating c of
         None \<Rightarrow> content (d3, s3)
       | Some m \<Rightarrow> filter (\<lambda>listing. js_ge (parseFloat (ToString (field listing ''review_scores_rating''))) m)
                    (content (d3, s3)))"
    by blast
  have g: "grows (d0, s) (d4, s4)"
    using g1 g2 g3 g4 grows_trans by blast
  then have obj: "objects s4 = objects s" and pre: "prefix (arrays s) (arrays s4)"
    by (simp_all add: grows_def)
  define s' where "s' = s4\<lparr>objects := objects s @ [d4]\<rparr>"
  have result: "filter_method s this c = (Inr (length (objects s)), s')"
    by (simp add: filter_method_def r1 r2 r3 r4 new_handler_def obj s'_def flip: d0_def)
  have "content (d2, s2) = filter (meets_room_type (room_type c)) (content (d1, s1))"
    by (simp add: c2 meets_room_type_def [abs_def] split: option.splits)
  moreover have "content (d3, s3) = filter (meets_bedrooms (bedrooms c)) (content (d2, s2))"
    by (simp add: c3 meets_bedrooms_def [abs_def] split: option.splits)
  moreover have "content (d4, s4) = filter (meets_rating (review_scores_rating c)) (content (d3, s3))"
    by (simp add: c4 meets_rating_def [abs_def] split: option.splits)
  ultimately have all: "content (d4, s4) = filter (meets c) (data_of s this)"
    by (simp add: c1 c0 meets_def [abs_def] conj_commute conj_left_commute)
  have new: "data_of s' (length (objects s)) = content (d4, s4)"
    by (simp add: data_of_def s'_def content_def)
  show ?thesis
    using result pre new all by (auto simp: s'_def)
qed

lemma data_of_unchanged:
  assumes "prefix (objects s) (objects s')" and "prefix (arrays s) (arrays s')"
    and "h < length (objects s)" and "objects s ! h < length (arrays s)"
  shows "data_of s' h = data_of s h"
proof -
  from assms(1,2) obtain os as where "objects s' = objects s @ os" "arrays s' = arrays s @ as"
    by (auto simp: prefix_def)
  with assms(3,4) show ?thesis
    by (simp add: data_of_def nth_append)
qed

lemma filter_method_agrees:
  assumes "this < length (objects s)" and "objects s ! this < length (arrays s)"
  shows "case filter_method s this c of
           (Inl e, s') \<Rightarrow> filter_criteria (AirBnBDataHandler (data_of s this)) c = Inl e
         | (Inr this', s') \<Rightarrow>
             filter_criteria (AirBnBDataHandler (data_of s this)) c =
               Inr (AirBnBDataHandler (data_of s' this'))"
proof (cases "price_throws c (data_of s this)")
  case True
  then obtain s' where "filter_method s this c = (Inl TypeError, s')"
    using assms(2) filter_method_throws by blast
  with True show ?thesis by (simp add: filter_criteria_closed)
next
  case False
  from filter_method_returns [OF False assms]
  obtain s' where "filter_method s this c = (Inr (length (objects s)), s')"
    and "data_of s' (length (objects s)) = filter (meets c) (data_of s this)"
    by blast
  with False show ?thesis by (simp add: filter_criteria_closed)
qed

text \<open>
  Claim C7, amended. filter either throws a TypeError, which happens exactly when a price
  criterion is given and some record has no price, or returns a new handler object: its
  reference is one that no object of the store had, and its listings are those of the
  original that meet the criteria, in their original order (a subsequence). In both cases
  the store after the call still has every array and every object that it had before,
  unchanged, so the record sequence of the original handler is what it was; after a throw
  the store has no new object.
\<close>

theorem filter_method_new_instance:
  assumes "this < length (objects s)" and "objects s ! this < length (arrays s)"
  shows "\<exists>r s'. filter_method s this c = (r, s')
    \<and> prefix (objects s) (objects s') \<and> prefix (arrays s) (arrays s')
    \<and> data_of s' this = data_of s this
    \<and> (price_throws c (data_of s this) \<longrightarrow> r = Inl TypeError \<and> objects s' = objects s)
    \<and> (\<not> price_throws c (data_of s this) \<longrightarrow>
          r = Inr (length (objects s))
        \<and> length (objects s') = Suc (length (objects s))
        \<and> subseq (data_of s' (length (objects s))) (data_of s this)
        \<and> data_of s' (length (objects s)) = filter (meets c) (data_of s this))"
proof (cases "price_throws c (data_of s this)")
  case True
  from filter_method_throws [OF True assms(2)]
  obtain s' where r: "filter_method s this c = (Inl TypeError, s')"
    "objects s' = objects s" "prefix (arrays s) (arrays s')"
    by blast
  then have "data_of s' this = data_of s this"
    using assms by (intro data_of_unchanged) simp_all
  with r True show ?thesis by simp
next
  case False
  from filter_method_returns [OF False assms]
  obtain s' where r: "filter_method s this c = (Inr (length (objects s)), s')"
    "objects s' = objects s @ [objects s' ! length (objects s)]"
    "prefix (arrays s) (arrays s')"
    "data_of s' (length (objects s)) = filter (meets c) (data_of s this)"
    by blast
  from r(2) have pre: "prefix (objects s) (objects s')"
    by (metis prefixI)
  from r(2) have len: "length (objects s') = Suc (length (objects s))"
    by (metis length_append_singleton)
  have old: "data_of s' this = data_of s this"
    using pre r(3) assms by (rule data_of_unchanged)
  have "subseq (filter (meets c) (data_of s this)) (data_of s this)"
    by (rule subseq_filter_left)
  with r(4) have "subseq (data_of s' (length (objects s))) (data_of s this)"
    by simp
  with r pre len old False show ?thesis by simp
qed

lemma store_example:
  "filter_method
     \<lparr>arrays = [[[(''price'', ''$80''), (''bedrooms'', ''2'')],
                 [(''price'', ''$120''), (''bedrooms'', ''2'')],
                 [(''price'', ''$90''), (''bedrooms'', ''3'')]]],
      objects = [0]\<rparr>
     0
     \<lparr>price = Some (Fin 100), room_type = None, bedrooms = Some (Fin 2), review_scores_rating = None\<rparr>
   = (Inr 1,
       \<lparr>arrays = [[[(''price'', ''$80''), (''bedrooms'', ''2'')],
                   [(''price'', ''$120''), (''bedrooms'', ''2'')],
                   [(''price'', ''$90''), (''bedrooms'', ''3'')]],
                  [[(''price'', ''$80''), (''bedrooms'', ''2'')],
                   [(''price'', ''$90''), (''bedrooms'', ''3'')]],
                  [[(''price'', ''$80''), (''bedrooms'', ''2'')]]],
        objects = [0, 2]\<rparr>)"
  by (simp add: filter_method_def array_filter_def new_array_def new_handler_def push_def call_on_def
      field_def js_strict_eq_def parse_eval)

theorem filter_method_new_instance_witness:
  "\<exists>s'. filter_method
     \<lparr>arrays = [[[(''price'', ''$80''), (''bedrooms'', ''2'')],
                 [(''price'', ''$120''), (''bedrooms'', ''2'')],
                 [(''price'', ''$90''), (''bedrooms'', ''3'')]]],
      objects = [0]\<rparr>
     0
     \<lparr>price = Some (Fin 100), room_type = None, bedrooms = Some (Fin 2), review_scores_rating = None\<rparr>
       = (Inr 1, s')
     \<and> data_of s' 0 = [[(''price'', ''$80''), (''bedrooms'', ''2'')],
                 [(''price'', ''$120''), (''bedrooms'', ''2'')],
                 [(''price'', ''$90''), (''bedrooms'', ''3'')]]
     \<and> subseq (data_of s' 1) [[(''price'', ''$80''), (''bedrooms'', ''2'')],
                 [(''price'', ''$120''), (''bedrooms'', ''2'')],
                 [(''price'', ''$90''), (''bedrooms'', ''3'')]]"
proof -
  define d :: "listing list" where "d = [[(''price'', ''$80''), (''bedrooms'', ''2'')],
                 [(''price'', ''$120''), (''bedrooms'', ''2'')],
                 [(''price'', ''$90''), (''bedrooms'', ''3'')]]"
  define s where "s = \<lparr>arrays = [d], objects = [0]\<rparr>"
  define c where "c = \<lparr>price = Some (Fin 100), room_type = None, bedrooms = Some (Fin 2),
    review_scores_rating = None\<rparr>"
  have a1: "0 < length (objects s)" and a2: "objects s ! 0 < length (arrays s)"
    by (simp_all add: s_def)
  have d0: "data_of s 0 = d"
    by (simp add: data_of_def s_def)
  have ok: "\<not> price_throws c (data_of s 0)"
    by (simp add: d0 price_throws_def d_def field_def)
  have len: "length (objects s) = 1"
    by (simp add: s_def)
  from filter_method_new_instance [OF a1 a2, of c] ok
  have "\<exists>s'. filter_method s 0 c = (Inr (length (objects s)), s')
           \<and> data_of s' 0 = data_of s 0
           \<and> subseq (data_of s' (length (objects s))) (data_of s 0)"
    by blast
  then have "\<exists>s'. filter_method s 0 c = (Inr 1, s') \<and> data_of s' 0 = d \<and> subseq (data_of s' 1) d"
    unfolding len d0 by blast
  then show ?thesis
    by (simp only: s_def c_def d_def)
qed

text \<open>
  Claim C7, the case that is excluded. With a price criterion, a table whose only record
  has no price makes filter throw: no handler is returned, and the store has gained only
  the empty array that the price pass had started.
\<close>

theorem filter_method_throws_counterexample:
  "filter_method \<lparr>arrays = [[[(''bedrooms'', ''1'')]]], objects = [0]\<rparr> 0
     \<lparr>price = Some (Fin 100), room_type = None, bedrooms = None, review_scores_rating = None\<rparr>
   = (Inl TypeError, \<lparr>arrays = [[[(''bedrooms'', ''1'')]], []], objects = [0]\<rparr>)"
  by (simp add: filter_method_def array_filter_def new_array_def call_on_def field_def)

section \<open>Properties of exportResults\<close>
















section \<open>Properties of the shell\<close>

lemma js_le_NaN_right [simp]: "js_le a NaN = False"
  by (cases a) simp_all





end
